theory Spec2Isabelle
  imports Main "HOL-Library.Word"
begin

section \<open>Status codes\<close>

text \<open>
  The values of \<open>ib_status_t\<close> that the two translation units use.
\<close>

datatype ib_status_t =
    IB_OK
  | IB_DECLINED
  | IB_EUNKNOWN
  | IB_EALLOC
  | IB_EINVAL
  | IB_ENOENT
  | IB_EAGAIN
  | IB_EOTHER
  | IB_EBADVAL

section \<open>The body filter of the Traffic Server plugin (ts_filter.c)\<close>

subsection \<open>Data\<close>

text \<open>
  \<open>edit_t\<close> and \<open>tsib_filter_ctx\<close> are declared in \<open>ts_ib.h\<close>; the fields are
  the ones \<open>ts_filter.c\<close> reads and writes.  The \<open>size_t\<close> fields (\<open>start\<close>,
  \<open>bytes\<close>, \<open>bytes_done\<close>, \<open>buffered\<close>, \<open>buf_limit\<close>) are natural numbers,
  the signed ones (\<open>offs\<close>, the \<open>int64_t nbytes\<close> arguments) are integers.
  Arithmetic on them is exact: the model covers streams whose offsets stay below
  \<open>2 ^ 63\<close>, where the C arithmetic does not wrap.  The one place where the
  source narrows a value, the \<open>int\<close> result of \<open>qcompare\<close>, is written out.

  \<open>repl\<close> is the replacement text; \<open>repl_len\<close> of the source is its length.
\<close>

record edit_t =
  start :: nat
  bytes :: nat
  repl :: string

abbreviation repl_len :: "edit_t \<Rightarrow> nat" where
  "repl_len e \<equiv> length (repl e)"

datatype iobuf_t =
    IOBUF_NOBUF
  | IOBUF_DISCARD
  | IOBUF_BUFFER_ALL
  | IOBUF_BUFFER_FLUSHALL
  | IOBUF_BUFFER_FLUSHPART

text \<open>
  The transport objects are modelled by their contents: \<open>output_buffer\<close> is the
  sequence of bytes written to the output \<open>TSIOBuffer\<close> so far, \<open>reader\<close> the bytes
  of \<open>fctx->buffer\<close> that \<open>fctx->reader\<close> has not consumed yet, \<open>output_vio_nbytes\<close>
  the value last passed to \<open>TSVIONBytesSet\<close> on the output VIO (if any).

  \<open>applied\<close> and \<open>dropped\<close> are history variables, not fields of the C struct:
  the edits that \<open>flush_data\<close> has applied, and the ones it has abandoned, in the
  order in which that happened.  No branch of the model reads them.
\<close>

record tsib_filter_ctx =
  output_buffer :: string
  output_vio_nbytes :: "int option"
  buffering :: iobuf_t
  reader :: string
  buf_limit :: nat
  buffered :: nat
  edits :: "edit_t list"
  offs :: int
  bytes_done :: nat
  applied :: "edit_t list"
  dropped :: "edit_t list"

subsection \<open>Sorting the edits\<close>

text \<open>
  \<open>qcompare\<close> returns \<open>b->start - a->start\<close>, a \<open>size_t\<close> difference, as an
  \<open>int\<close>: the 64-bit difference is cut to its low 32 bits, read as two's
  complement.
\<close>

definition qcompare :: "edit_t \<Rightarrow> edit_t \<Rightarrow> int" where
  "qcompare a b =
     sint (ucast ((word_of_nat (start b) :: 64 word) - word_of_nat (start a)) :: 32 word)"

text \<open>
  \<open>qsort\<close> belongs to the C library.  It is modelled as an insertion sort driven
  by the comparison function, which leaves elements that compare equal in the
  order in which they were in the array (the C standard leaves their order
  unspecified).
\<close>

fun qsort_insert :: "('a \<Rightarrow> 'a \<Rightarrow> int) \<Rightarrow> 'a \<Rightarrow> 'a list \<Rightarrow> 'a list" where
  "qsort_insert cmp x [] = [x]"
| "qsort_insert cmp x (y # ys) =
     (if cmp x y \<le> 0 then x # y # ys else y # qsort_insert cmp x ys)"

fun qsort :: "('a \<Rightarrow> 'a \<Rightarrow> int) \<Rightarrow> 'a list \<Rightarrow> 'a list" where
  "qsort cmp [] = []"
| "qsort cmp (x # xs) = qsort_insert cmp x (qsort cmp xs)"

subsection \<open>Transport operations\<close>

text \<open>
  \<open>TSIOBufferCopy(dst, reader, length, 0)\<close> appends to \<open>dst\<close> the first
  \<open>length\<close> bytes the reader holds, or all of them when it holds fewer, and returns
  the number of bytes copied; the reader is left as it is.
  \<open>TSIOBufferReaderConsume\<close> drops bytes from the front of the reader,
  \<open>TSIOBufferWrite\<close> appends a byte string and returns its length.
\<close>

definition TSIOBufferCopy :: "string \<Rightarrow> string \<Rightarrow> int \<Rightarrow> string \<times> nat" where
  "TSIOBufferCopy dst rd len = (dst @ take (nat len) rd, min (nat len) (length rd))"

definition TSIOBufferReaderConsume :: "string \<Rightarrow> nat \<Rightarrow> string" where
  "TSIOBufferReaderConsume rd n = drop n rd"

definition TSIOBufferWrite :: "string \<Rightarrow> string \<Rightarrow> string \<times> nat" where
  "TSIOBufferWrite dst s = (dst @ s, length s)"

subsection \<open>flush_data\<close>

text \<open>
  The copy loop of \<open>flush_data\<close>, which occurs twice in it:

  \<^verbatim>\<open>while (k > 0) { n = TSIOBufferCopy(out, reader, k, 0); assert (n > 0);
                   TSIOBufferReaderConsume(reader, n);
                   buffered -= n; bytes_done += n; k -= n; }\<close>

  The first occurrence counts with \<open>start\<close> and takes the same \<open>n\<close> off \<open>nbytes\<close>
  as well; the second counts with \<open>nbytes\<close> itself.  \<open>None\<close> is the failed
  assertion: the call does not return.
\<close>

function copy_loop :: "tsib_filter_ctx \<Rightarrow> int \<Rightarrow> tsib_filter_ctx option" where
  "copy_loop f k =
     (if 0 < k then
        (let n = snd (TSIOBufferCopy (output_buffer f) (reader f) k) in
         if 0 < n then
           copy_loop
             (f\<lparr>output_buffer := fst (TSIOBufferCopy (output_buffer f) (reader f) k),
                reader := TSIOBufferReaderConsume (reader f) n,
                buffered := buffered f - n,
                bytes_done := bytes_done f + n\<rparr>)
             (k - int n)
         else None)
      else Some f)"
  by pat_completeness auto
termination
  by (relation "measure (\<lambda>(f, k). nat k)") auto

declare copy_loop.simps [simp del]

text \<open>
  The loop over the sorted array.  The source walks the array from its last
  element down and pops an element by decrementing the array length, so the list
  argument here is the array read from its end: the head is the element at index
  \<open>i\<close>.  The result is the rest of that list (empty unless the loop was left by
  \<open>break\<close>), the context, \<open>nbytes\<close> and \<open>rc\<close>.
\<close>

fun edit_loop ::
  "bool \<Rightarrow> edit_t list \<Rightarrow> tsib_filter_ctx \<Rightarrow> int \<Rightarrow> ib_status_t
     \<Rightarrow> (edit_t list \<times> tsib_filter_ctx \<times> int \<times> ib_status_t) option" where
  "edit_loop final [] f nbytes rc = Some ([], f, nbytes, rc)"
| "edit_loop final (e # es) f nbytes rc =
     (if start e < bytes_done f then
        edit_loop final es (f\<lparr>dropped := dropped f @ [e]\<rparr>) nbytes IB_EBADVAL
      else if int (start e + bytes e) > int (bytes_done f) + nbytes then
        (if \<not> final then
           Some (e # es, f, int (start e) - int (bytes_done f), IB_EAGAIN)
         else
           edit_loop final es (f\<lparr>dropped := dropped f @ [e]\<rparr>) nbytes IB_EBADVAL)
      else
        (case copy_loop f (int (start e) - int (bytes_done f)) of
           None \<Rightarrow> None
         | Some f1 \<Rightarrow>
             let nbytes1 = nbytes - (int (start e) - int (bytes_done f));
                 f2 = f1\<lparr>reader := TSIOBufferReaderConsume (reader f1) (bytes e),
                         buffered := buffered f1 - bytes e,
                         bytes_done := bytes_done f1 + bytes e\<rparr>;
                 f3 = f2\<lparr>output_buffer := fst (TSIOBufferWrite (output_buffer f2) (repl e)),
                         offs := offs f2 + (int (repl_len e) - int (bytes e)),
                         applied := applied f2 @ [e]\<rparr>
             in edit_loop final es f3 (nbytes1 - int (bytes e)) rc))"

text \<open>
  \<open>flush_data fctx nbytes last\<close> (the flag \<open>last\<close> is called \<open>final\<close> here).  The edits that the loop leaves are put back
  in array order.  \<open>TSVIOReenable\<close> has no effect on the modelled state.
\<close>

definition flush_data ::
  "tsib_filter_ctx \<Rightarrow> int \<Rightarrow> bool \<Rightarrow> (ib_status_t \<times> tsib_filter_ctx) option" where
  "flush_data fctx nbytes0 final =
     (let nbytes = (if nbytes0 = - 1 then int (buffered fctx) else nbytes0) in
      case (if edits fctx \<noteq> []
            then edit_loop final (rev (qsort qcompare (edits fctx))) fctx nbytes IB_OK
            else Some ([], fctx, nbytes, IB_OK)) of
        None \<Rightarrow> None
      | Some (rest, f1, nbytes1, rc) \<Rightarrow>
          (case copy_loop (f1\<lparr>edits := rev rest\<rparr>) nbytes1 of
             None \<Rightarrow> None
           | Some f2 \<Rightarrow>
               Some (rc,
                 if final
                 then f2\<lparr>output_vio_nbytes := Some (int (bytes_done f2) + offs f2)\<rparr>
                 else f2)))"

subsection \<open>buffer_data_chunk\<close>

text \<open>
  \<open>buffer_data_chunk fctx reader nbytes\<close>: \<open>rd\<close> is what the input reader
  holds, of which the first \<open>nbytes\<close> bytes are copied to \<open>fctx->buffer\<close>.
\<close>

definition buffer_data_chunk ::
  "tsib_filter_ctx \<Rightarrow> string \<Rightarrow> int \<Rightarrow> (ib_status_t \<times> tsib_filter_ctx) option" where
  "buffer_data_chunk fctx rd nbytes =
     (if buffering fctx = IOBUF_DISCARD then
        Some (IB_OK,
          if 0 < buffered fctx
          then fctx\<lparr>reader := TSIOBufferReaderConsume (reader fctx) (buffered fctx),
                    buffered := 0\<rparr>
          else fctx)
      else
        (case (if buffering fctx = IOBUF_BUFFER_FLUSHALL
                  \<and> int (buffered fctx) + nbytes > int (buf_limit fctx)
               then flush_data fctx (- 1) False
               else Some (IB_OK, fctx)) of
           None \<Rightarrow> None
         | Some (rc, f1) \<Rightarrow>
             let copied = snd (TSIOBufferCopy (reader f1) rd nbytes);
                 f2 = f1\<lparr>reader := fst (TSIOBufferCopy (reader f1) rd nbytes),
                         buffered := buffered f1 + copied\<rparr>
             in if buffering f2 = IOBUF_NOBUF then flush_data f2 (- 1) False
                else if buffering f2 = IOBUF_BUFFER_FLUSHPART \<and> buffered f2 > buf_limit f2
                then flush_data f2 (int (buffered f2) - int (buf_limit f2)) False
                else Some (rc, f2)))"

subsection \<open>process_data\<close>

text \<open>
  The part of \<open>process_data\<close> that handles body data.  The test of the
  transaction status at its head, which sets the mode to \<open>IOBUF_DISCARD\<close> once
  the transaction goes to an error document, is left to the caller: such a
  transaction enters with \<open>buffering = IOBUF_DISCARD\<close>, whatever it has
  buffered before.  \<open>input_ndone\<close> is the
  \<open>ndone\<close> counter of the input VIO and \<open>errlog\<close> the messages passed to
  \<open>ib_log_error_tx\<close>.  The engine callback \<open>ib_notify_body\<close> is a parameter:
  given the bytes of the block it returns a status and the edits that rule
  actions have added to \<open>fctx->edits\<close> while it ran.
\<close>

record txn_state =
  fctx :: tsib_filter_ctx
  input_ndone :: int
  errlog :: "string list"

text \<open>The \<open>switch (rc)\<close> after \<open>buffer_data_chunk\<close>.\<close>

fun chunk_status_log :: "ib_status_t \<Rightarrow> string list" where
  "chunk_status_log IB_EAGAIN = []"
| "chunk_status_log IB_OK = []"
| "chunk_status_log IB_EBADVAL = [''Bad/Inconsistent stream edit(s) ignored.'']"
| "chunk_status_log _ = [''Unhandled return value %d'']"

text \<open>
  One pass of \<open>while (navail > 0)\<close>: \<open>rd\<close> is the content of the input reader,
  \<open>nbytes\<close> the length of its first block.  The result is the new state and
  what is left in the input reader after \<open>TSIOBufferReaderConsume\<close>.
\<close>

definition process_block ::
  "(string \<Rightarrow> ib_status_t \<times> edit_t list) \<Rightarrow> txn_state \<Rightarrow> string \<Rightarrow> nat
     \<Rightarrow> (txn_state \<times> string) option" where
  "process_block ib_notify_body st rd nbytes =
     (let (nrc, added) = ib_notify_body (take nbytes rd);
          log1 = (if nrc \<noteq> IB_OK then [''Error %d notifying body data.''] else []);
          f0 = (fctx st)\<lparr>edits := edits (fctx st) @ added\<rparr>
      in case buffer_data_chunk f0 rd (int nbytes) of
           None \<Rightarrow> None
         | Some (rc, f1) \<Rightarrow>
             Some (st\<lparr>fctx := f1,
                      input_ndone := input_ndone st + int nbytes,
                      errlog := errlog st @ log1 @ chunk_status_log rc\<rparr>,
                   TSIOBufferReaderConsume rd nbytes))"

text \<open>
  The loop over the blocks that the input reader holds, and the body as a
  whole: every block goes through the loop, then \<open>ntodo\<close> is zero and the data
  still buffered is flushed with \<open>last\<close> set.  The status of that flush is not
  looked at (\<open>flush_data(fctx, -1, 1);\<close>).
\<close>

fun data_loop ::
  "(string \<Rightarrow> ib_status_t \<times> edit_t list) \<Rightarrow> txn_state \<Rightarrow> string list
     \<Rightarrow> txn_state option" where
  "data_loop ib_notify_body st [] = Some st"
| "data_loop ib_notify_body st (b # bs) =
     (case process_block ib_notify_body st (concat (b # bs)) (length b) of
        None \<Rightarrow> None
      | Some (st1, rd1) \<Rightarrow> data_loop ib_notify_body st1 bs)"

definition process_data ::
  "(string \<Rightarrow> ib_status_t \<times> edit_t list) \<Rightarrow> txn_state \<Rightarrow> string list
     \<Rightarrow> txn_state option" where
  "process_data ib_notify_body st blocks =
     (case data_loop ib_notify_body st blocks of
        None \<Rightarrow> None
      | Some st1 \<Rightarrow>
          (case flush_data (fctx st1) (- 1) True of
             None \<Rightarrow> None
           | Some (rc, f2) \<Rightarrow> Some (st1\<lparr>fctx := f2\<rparr>)))"

section \<open>The rules module (rules.c)\<close>

subsection \<open>Characters and C library functions\<close>

text \<open>
  \<open>isblank\<close> and \<open>isspace\<close> in the C locale.  Strings are the characters
  before the terminating NUL.
\<close>

definition isblank :: "char \<Rightarrow> bool" where
  "isblank c \<longleftrightarrow> c = CHR '' '' \<or> c = CHR 0x09"

definition isspace :: "char \<Rightarrow> bool" where
  "isspace c \<longleftrightarrow>
     c = CHR '' '' \<or> c = CHR 0x09 \<or> c = CHR 0x0A \<or> c = CHR 0x0B \<or> c = CHR 0x0C
     \<or> c = CHR 0x0D"

text \<open>
  \<open>strchr s c\<close> is the suffix of \<open>s\<close> that starts at the first \<open>c\<close>, if there is
  one; \<open>strtok_tokens\<close> lists what successive calls of \<open>strtok\<close> with the same set
  of delimiters return: the maximal non-empty runs of characters that are not
  delimiters (\<open>cur\<close> is the run read so far).
\<close>

fun strchr :: "string \<Rightarrow> char \<Rightarrow> string option" where
  "strchr [] c = None"
| "strchr (x # xs) c = (if x = c then Some (x # xs) else strchr xs c)"

fun strtok_tokens :: "string \<Rightarrow> string \<Rightarrow> string \<Rightarrow> string list" where
  "strtok_tokens delim cur [] = (if cur = [] then [] else [cur])"
| "strtok_tokens delim cur (c # cs) =
     (if c \<in> set delim
      then (if cur = [] then strtok_tokens delim [] cs else cur # strtok_tokens delim [] cs)
      else strtok_tokens delim (cur @ [c]) cs)"

subsection \<open>Rules and operator instances\<close>

text \<open>
  Modelled from the spec: the rule object and its builder functions
  (\<open>ib_rule_add_input\<close>, \<open>ib_rule_set_operator\<close>) belong to the rule engine, whose
  source is not part of this development.  A rule carries its flags, the ordered
  list of input selectors and at most one operator instance; \<open>add_input\<close> appends a
  selector and \<open>set_operator\<close> stores the instance, both with status \<open>IB_OK\<close>.
\<close>

record ib_operator_inst_t =
  op_name :: string
  op_params :: "string option"
  op_invert :: bool

record ib_rule_t =
  rule_external :: bool
  input_fields :: "string list"
  opinst :: "ib_operator_inst_t option"

definition ib_rule_add_input :: "ib_rule_t \<Rightarrow> string \<Rightarrow> ib_status_t \<times> ib_rule_t" where
  "ib_rule_add_input rule name = (IB_OK, rule\<lparr>input_fields := input_fields rule @ [name]\<rparr>)"

definition ib_rule_set_operator ::
  "ib_rule_t \<Rightarrow> ib_operator_inst_t \<Rightarrow> ib_status_t \<times> ib_rule_t" where
  "ib_rule_set_operator rule inst = (IB_OK, rule\<lparr>opinst := Some inst\<rparr>)"

subsection \<open>parse_operator\<close>

text \<open>
  The search for the leading \<open>!\<close> and \<open>@\<close>.  \<open>at\<close> is still \<open>NULL\<close> whenever the
  loop body runs, since the loop is left as soon as \<open>at\<close> is set.  The result is
  the error status, or \<open>at + 1\<close> (if \<open>at\<close> was set) with the value of \<open>bang\<close>.
\<close>

fun find_at :: "string \<Rightarrow> bool \<Rightarrow> ib_status_t + (string option \<times> bool)" where
  "find_at [] bang = Inr (None, bang)"
| "find_at (c # cs) bang =
     (if \<not> bang \<and> c = CHR ''!'' then find_at cs True
      else if c = CHR ''@'' then Inr (Some cs, bang)
      else if \<not> isblank c then Inl IB_EINVAL
      else find_at cs bang)"

text \<open>
  \<open>while ((end > args) && (*end == ' ')) { *end = '\0'; --end; }\<close>, entered with
  \<open>end\<close> at the last character of a non-empty \<open>args\<close>.
\<close>

function strip_trailing :: "string \<Rightarrow> string" where
  "strip_trailing a =
     (if 1 < length a \<and> last a = CHR '' '' then strip_trailing (butlast a) else a)"
  by pat_completeness auto
termination
  by (relation "measure length") auto

declare strip_trailing.simps [simp del]

text \<open>
  The operator name and the arguments cut out of \<open>copy\<close>, the text after \<open>@\<close>.
\<close>

definition split_operator :: "string \<Rightarrow> string \<times> string option" where
  "split_operator copy =
     (case strchr copy CHR '' '' of
        None \<Rightarrow> (copy, None)
      | Some space \<Rightarrow>
          let args = dropWhile isspace space;
              op = take (length copy - length space) copy;
              args1 = (if 0 < length args then strip_trailing args else args)
          in (op, if args1 = [] then None else Some args1))"

text \<open>
  \<open>parse_operator\<close>.  \<open>ib_operator_inst_create\<close> looks the operator up in the
  registry of the engine and is a parameter: it is given the name, the arguments
  and the invert flag.  Memory allocation (\<open>ib_mpool_strdup\<close>) succeeds.
\<close>

definition parse_operator ::
  "(string \<Rightarrow> string option \<Rightarrow> bool \<Rightarrow> ib_status_t \<times> ib_operator_inst_t)
     \<Rightarrow> ib_rule_t \<Rightarrow> string \<Rightarrow> ib_status_t \<times> ib_rule_t" where
  "parse_operator ib_operator_inst_create rule str =
     (case find_at str False of
        Inl rc \<Rightarrow> (rc, rule)
      | Inr (at, bang) \<Rightarrow>
          (case at of
             None \<Rightarrow> (IB_EINVAL, rule)
           | Some copy \<Rightarrow>
               if length copy = 0 then (IB_EINVAL, rule)
               else
                 let (op, args) = split_operator copy;
                     (rc, operator) = ib_operator_inst_create op args bang
                 in if rc \<noteq> IB_OK then (rc, rule)
                    else ib_rule_set_operator rule operator))"

text \<open>
  An operator registry that knows every name, for stating what the parser hands
  to it.
\<close>

definition any_operator ::
  "string \<Rightarrow> string option \<Rightarrow> bool \<Rightarrow> ib_status_t \<times> ib_operator_inst_t" where
  "any_operator op args invert = (IB_OK, \<lparr>op_name = op, op_params = args, op_invert = invert\<rparr>)"

subsection \<open>parse_inputs\<close>

text \<open>The loop over the tokens, which stops at the first failing \<open>ib_rule_add_input\<close>.\<close>

fun add_inputs ::
  "(ib_rule_t \<Rightarrow> string \<Rightarrow> ib_status_t \<times> ib_rule_t) \<Rightarrow> ib_rule_t \<Rightarrow> string list
     \<Rightarrow> ib_status_t \<times> ib_rule_t" where
  "add_inputs add rule [] = (IB_OK, rule)"
| "add_inputs add rule (cur # rest) =
     (case add rule cur of (rc, rule1) \<Rightarrow>
        if rc \<noteq> IB_OK then (rc, rule1) else add_inputs add rule1 rest)"

definition parse_inputs ::
  "(ib_rule_t \<Rightarrow> string \<Rightarrow> ib_status_t \<times> ib_rule_t) \<Rightarrow> ib_rule_t \<Rightarrow> string
     \<Rightarrow> ib_status_t \<times> ib_rule_t" where
  "parse_inputs add rule input_str =
     (let copy = dropWhile isspace input_str in
      if copy = [] then (IB_EINVAL, rule)
      else add_inputs add rule (strtok_tokens ''|,'' [] copy))"

text \<open>A rule as \<open>ib_rule_create\<close> leaves it.\<close>

definition new_rule :: ib_rule_t where
  "new_rule = \<lparr>rule_external = False, input_fields = [], opinst = None\<rparr>"

subsection \<open>Script rules\<close>

text \<open>
  The lock, the Lua runtime and the log are outside the module.  What they do in
  one call of \<open>ib_lua_func_eval_r\<close> is given by a record: the status of each
  \<open>ib_lock_lock\<close> and \<open>ib_lock_unlock\<close>, of \<open>ib_lua_new_thread\<close> and
  \<open>ib_lua_join_thread\<close>, and the status and result of \<open>ib_lua_func_eval_int\<close>.
  The functions return their status together with the events they caused, in
  order.
\<close>

record lua_outcomes =
  lock_new :: ib_status_t
  new_thread :: ib_status_t
  unlock_new :: ib_status_t
  eval_status :: ib_status_t
  eval_result :: int
  lock_join :: ib_status_t
  join_thread :: ib_status_t
  unlock_join :: ib_status_t

datatype lua_event =
    Locked
  | Unlocked
  | CriticalCall
  | ScriptCall
  | LogError string

definition call_in_critical_section ::
  "ib_status_t \<Rightarrow> ib_status_t \<Rightarrow> ib_status_t \<Rightarrow> ib_status_t \<times> lua_event list" where
  "call_in_critical_section lock_rc critical_rc unlock_rc =
     (if lock_rc \<noteq> IB_OK then (lock_rc, [LogError ''Failed to lock Lua context.''])
      else
        let ev1 = [Locked, CriticalCall, Unlocked];
            ev2 = (if critical_rc \<noteq> IB_OK then [LogError ''Critical call failed: %d''] else [])
        in if unlock_rc \<noteq> IB_OK
           then (unlock_rc, ev1 @ ev2 @ [LogError ''Failed to unlock Lua context.''])
           else (critical_rc, ev1 @ ev2))"

text \<open>
  \<open>ib_lua_func_eval_r\<close>: \<open>result\<close> is what \<open>*result\<close> holds when the function is
  entered; the second component of the value is what it holds on return.
\<close>

definition ib_lua_func_eval_r ::
  "lua_outcomes \<Rightarrow> int \<Rightarrow> ib_status_t \<times> int \<times> lua_event list" where
  "ib_lua_func_eval_r w result =
     (case call_in_critical_section (lock_new w) (new_thread w) (unlock_new w) of
        (ib_rc, ev1) \<Rightarrow>
          if ib_rc \<noteq> IB_OK then (ib_rc, result, ev1)
          else
            let result1 = eval_result w in
            if eval_status w \<noteq> IB_OK then (eval_status w, result1, ev1 @ [ScriptCall])
            else
              (case call_in_critical_section (lock_join w) (join_thread w) (unlock_join w) of
                 (ib_rc2, ev2) \<Rightarrow> (ib_rc2, result1, ev1 @ [ScriptCall] @ ev2)))"

definition lua_operator_execute ::
  "lua_outcomes \<Rightarrow> int \<Rightarrow> ib_status_t \<times> int \<times> lua_event list" where
  "lua_operator_execute w result = ib_lua_func_eval_r w result"

section \<open>Auxiliary definitions\<close>

subsection \<open>Auxiliary notions for the filter\<close>

text \<open>
  The contexts in which \<open>buffered\<close> is the number of bytes the reader holds.
\<close>

definition consistent :: "tsib_filter_ctx \<Rightarrow> bool" where
  "consistent f \<longleftrightarrow> buffered f = length (reader f)"

text \<open>
  What one pass of the loop body does to the context when it abandons an edit,
  and when it applies one that starts at or after \<open>bytes_done\<close>.
\<close>

definition drop_edit :: "tsib_filter_ctx \<Rightarrow> edit_t \<Rightarrow> tsib_filter_ctx" where
  "drop_edit f e = f\<lparr>dropped := dropped f @ [e]\<rparr>"

definition apply_edit :: "tsib_filter_ctx \<Rightarrow> edit_t \<Rightarrow> tsib_filter_ctx" where
  "apply_edit f e =
     f\<lparr>output_buffer :=
         output_buffer f @ take (start e - bytes_done f) (reader f) @ repl e,
       reader := drop (start e - bytes_done f + bytes e) (reader f),
       buffered := buffered f - (start e - bytes_done f) - bytes e,
       bytes_done := start e + bytes e,
       offs := offs f + (int (repl_len e) - int (bytes e)),
       applied := applied f @ [e]\<rparr>"

text \<open>
  The two tests of the loop body: the edit is abandoned, or it is left for the
  next call.  When neither holds the edit is applied.
\<close>

definition abandons :: "bool \<Rightarrow> tsib_filter_ctx \<Rightarrow> int \<Rightarrow> edit_t \<Rightarrow> bool" where
  "abandons final f nbytes e \<longleftrightarrow>
     start e < bytes_done f
     \<or> (final \<and> int (start e + bytes e) > int (bytes_done f) + nbytes)"

definition defers :: "bool \<Rightarrow> tsib_filter_ctx \<Rightarrow> int \<Rightarrow> edit_t \<Rightarrow> bool" where
  "defers final f nbytes e \<longleftrightarrow>
     \<not> final \<and> bytes_done f \<le> start e
     \<and> int (start e + bytes e) > int (bytes_done f) + nbytes"

text \<open>
  The change of the stream length that an edit causes, and the bookkeeping that
  ties \<open>offs\<close> and \<open>bytes_done\<close> to the edits applied and the bytes written.
\<close>

definition edit_delta :: "edit_t \<Rightarrow> int" where
  "edit_delta e = int (repl_len e) - int (bytes e)"

definition accounted :: "tsib_filter_ctx \<Rightarrow> bool" where
  "accounted f \<longleftrightarrow>
     offs f = sum_list (map edit_delta (applied f))
     \<and> int (length (output_buffer f)) = int (bytes_done f) + offs f"

text \<open>
  The byte count a call of \<open>flush_data\<close> works with: \<open>-1\<close> stands for all
  that is buffered.
\<close>

definition effective_nbytes :: "tsib_filter_ctx \<Rightarrow> int \<Rightarrow> int" where
  "effective_nbytes f nbytes = (if nbytes = - 1 then int (buffered f) else nbytes)"

text \<open>
  The contexts through which data passes unchanged: no edit waits and the mode
  is not \<open>IOBUF_DISCARD\<close>.
\<close>

definition passes_on :: "tsib_filter_ctx \<Rightarrow> bool" where
  "passes_on f \<longleftrightarrow> consistent f \<and> edits f = [] \<and> buffering f \<noteq> IOBUF_DISCARD"

subsection \<open>Edit semantics in the words of the specification\<close>

text \<open>
  \<open>replace_ranges pos inp es\<close> replaces, for each edit of \<open>es\<close> in turn, the
  bytes from \<open>start\<close> to \<open>start + bytes\<close> by the replacement; \<open>inp\<close> is the input
  from stream offset \<open>pos\<close> on.  \<open>spec_edit_output\<close> does so in ascending order of
  \<open>start\<close>, edits with equal \<open>start\<close> in the order of insertion (\<open>sort_key\<close> is
  stable).  \<open>non_overlapping\<close> says that no two edits overlap, and \<open>chained\<close>
  that each edit of a list starts at or after the end of the one before it.
\<close>

fun replace_ranges :: "nat \<Rightarrow> string \<Rightarrow> edit_t list \<Rightarrow> string" where
  "replace_ranges pos inp [] = inp"
| "replace_ranges pos inp (e # es) =
     take (start e - pos) inp @ repl e
       @ replace_ranges (start e + bytes e) (drop (start e + bytes e - pos) inp) es"



fun chained :: "nat \<Rightarrow> edit_t list \<Rightarrow> bool" where
  "chained pos [] = True"
| "chained pos (e # es) = (pos \<le> start e \<and> chained (start e + bytes e) es)"

subsection \<open>The state of a run\<close>

text \<open>
  \<open>end_pos pos es\<close> is the offset at which the last edit of a chained list
  ends (\<open>pos\<close> for the empty list): the value of \<open>bytes_done\<close> once the edits
  have been applied.
\<close>

fun end_pos :: "nat \<Rightarrow> edit_t list \<Rightarrow> nat" where
  "end_pos pos [] = pos"
| "end_pos pos (e # es) = end_pos (start e + bytes e) es"




fun in_reach ::
  "iobuf_t \<Rightarrow> (string \<Rightarrow> ib_status_t \<times> edit_t list) \<Rightarrow> nat \<Rightarrow> edit_t list \<Rightarrow> string list
     \<Rightarrow> bool" where
  "in_reach mode ib_notify_body off pending [] = True"
| "in_reach mode ib_notify_body off pending (b # bs) =
     ((\<forall>e\<in>set (pending @ snd (ib_notify_body b)).
         start e \<le> off + (if mode = IOBUF_BUFFER_FLUSHALL then 0 else length b))
      \<and> in_reach mode ib_notify_body (off + length b) [] bs)"

subsection \<open>Auxiliary notions for the rules module\<close>

text \<open>
  The text that \<open>parse_operator\<close> accepts before \<open>@\<close>: blanks and at most one
  \<open>!\<close> (none when \<open>bang\<close> is already set).  \<open>operator_name\<close> and
  \<open>operator_args\<close> describe how the text after \<open>@\<close> is cut: the name ends at the
  first space; the arguments are what follows it without the white space in front
  and the spaces at the end, and are absent when nothing is left.

  \<open>claimed_operator_form\<close> is the syntax in the words of the specification:
  optional white space, an optional single \<open>!\<close>, then \<open>@\<close> and a non-empty tail.
\<close>

definition bang_budget :: "bool \<Rightarrow> nat" where
  "bang_budget bang = (if bang then 0 else 1)"

definition prefix_ok :: "bool \<Rightarrow> string \<Rightarrow> bool" where
  "prefix_ok bang pre \<longleftrightarrow>
     (\<forall>c\<in>set pre. isblank c \<or> c = CHR ''!'')
     \<and> length (filter (\<lambda>c. c = CHR ''!'') pre) \<le> bang_budget bang"

definition operator_prefix_ok :: "string \<Rightarrow> bool" where
  "operator_prefix_ok pre = prefix_ok False pre"

definition rstrip_spaces :: "string \<Rightarrow> string" where
  "rstrip_spaces a = rev (dropWhile (\<lambda>c. c = CHR '' '') (rev a))"

definition operator_name :: "string \<Rightarrow> string" where
  "operator_name tail = takeWhile (\<lambda>c. c \<noteq> CHR '' '') tail"

definition operator_args :: "string \<Rightarrow> string option" where
  "operator_args tail =
     (let a = rstrip_spaces (dropWhile isspace (dropWhile (\<lambda>c. c \<noteq> CHR '' '') tail))
      in if a = [] then None else Some a)"

definition claimed_operator_form :: "string \<Rightarrow> bool" where
  "claimed_operator_form s =
     (let r = dropWhile isspace s;
          r1 = (case r of [] \<Rightarrow> r | c # cs \<Rightarrow> if c = CHR ''!'' then cs else r)
      in case r1 of [] \<Rightarrow> False | c # cs \<Rightarrow> c = CHR ''@'' \<and> cs \<noteq> [])"

section \<open>Contexts and runs used in examples\<close>

subsection \<open>The body filter\<close>

text \<open>
  The context at the start of a body, for a buffering mode and a limit; the
  transaction state around it; and an engine that adds no edits.
\<close>

definition fresh_ctx :: "iobuf_t \<Rightarrow> nat \<Rightarrow> tsib_filter_ctx" where
  "fresh_ctx mode limit =
     \<lparr>output_buffer = [], output_vio_nbytes = None, buffering = mode,
      reader = [], buf_limit = limit, buffered = 0, edits = [],
      offs = 0, bytes_done = 0, applied = [], dropped = []\<rparr>"

definition fresh_txn :: "iobuf_t \<Rightarrow> nat \<Rightarrow> txn_state" where
  "fresh_txn mode limit = \<lparr>fctx = fresh_ctx mode limit, input_ndone = 0, errlog = []\<rparr>"

definition no_edits :: "string \<Rightarrow> ib_status_t \<times> edit_t list" where
  "no_edits b = (IB_OK, [])"

text \<open>
  Contexts in the two limited modes with an edit that ends inside the bytes to
  be flushed when \<open>Hello\<close> or \<open>World\<close> arrives, and with one that ends beyond
  them.
\<close>

definition edited_all_ctx :: tsib_filter_ctx where
  "edited_all_ctx =
     (fresh_ctx IOBUF_BUFFER_FLUSHALL 4)
       \<lparr>reader := ''Hello'', buffered := 5,
        edits := [\<lparr>start = 3, bytes = 2, repl = ''p!''\<rparr>]\<rparr>"

definition edited_part_ctx :: tsib_filter_ctx where
  "edited_part_ctx =
     (fresh_ctx IOBUF_BUFFER_FLUSHPART 2)\<lparr>edits := [\<lparr>start = 1, bytes = 1, repl = ''x''\<rparr>]\<rparr>"

definition straddled_all_ctx :: tsib_filter_ctx where
  "straddled_all_ctx =
     (fresh_ctx IOBUF_BUFFER_FLUSHALL 4)
       \<lparr>reader := ''Hello'', buffered := 5,
        edits := [\<lparr>start = 3, bytes = 4, repl = ''p!''\<rparr>]\<rparr>"

definition straddled_part_ctx :: tsib_filter_ctx where
  "straddled_part_ctx =
     (fresh_ctx IOBUF_BUFFER_FLUSHPART 2)\<lparr>edits := [\<lparr>start = 1, bytes = 3, repl = ''x''\<rparr>]\<rparr>"

text \<open>
  A context in the mode \<open>IOBUF_NOBUF\<close> in which \<open>Hello\<close> has been written and
  \<open>World\<close> is buffered, with an edit that starts in the bytes already written and
  one that ends beyond the buffered bytes; the same context with the second edit
  starting beyond the buffered bytes; the transaction in the first context just
  before \<open>World\<close> arrives; a context with an edit that starts beyond the buffered
  bytes; and a transaction at the end of its body with an edit that ends beyond
  the body.
\<close>

definition overlap_then_straddle_ctx :: tsib_filter_ctx where
  "overlap_then_straddle_ctx =
     \<lparr>output_buffer = ''Hello'', output_vio_nbytes = None, buffering = IOBUF_NOBUF,
      reader = ''World'', buf_limit = 0, buffered = 5,
      edits = [\<lparr>start = 8, bytes = 4, repl = ''y''\<rparr>, \<lparr>start = 2, bytes = 1, repl = ''x''\<rparr>],
      offs = 0, bytes_done = 5, applied = [], dropped = []\<rparr>"


definition overlap_then_straddle_txn :: txn_state where
  "overlap_then_straddle_txn =
     \<lparr>fctx = overlap_then_straddle_ctx\<lparr>reader := [], buffered := 0\<rparr>,
      input_ndone = 5, errlog = []\<rparr>"

definition future_edit_ctx :: tsib_filter_ctx where
  "future_edit_ctx =
     (fresh_ctx IOBUF_NOBUF 0)\<lparr>edits := [\<lparr>start = 100, bytes = 0, repl = ''x''\<rparr>]\<rparr>"

definition beyond_end_txn :: txn_state where
  "beyond_end_txn =
     \<lparr>fctx = (fresh_ctx IOBUF_BUFFER_ALL 0)
               \<lparr>reader := ''Hello'', buffered := 5,
                edits := [\<lparr>start = 3, bytes = 4, repl = ''p!''\<rparr>]\<rparr>,
      input_ndone = 5, errlog = []\<rparr>"

text \<open>
  A transaction that has buffered \<open>Hello\<close> when its mode becomes
  \<open>IOBUF_DISCARD\<close>.
\<close>

definition switched_txn :: txn_state where
  "switched_txn =
     \<lparr>fctx = (fresh_ctx IOBUF_DISCARD 0)\<lparr>reader := ''Hello'', buffered := 5\<rparr>,
      input_ndone = 5, errlog = []\<rparr>"



text \<open>
  An engine that adds an edit in \<open>Hello\<close> while it is notified of that block,
  and one in the next block while it is notified of that one.
\<close>

definition two_edits_in_time :: "string \<Rightarrow> ib_status_t \<times> edit_t list" where
  "two_edits_in_time b =
     (if b = ''Hello'' then (IB_OK, [\<lparr>start = 3, bytes = 4, repl = ''p!''\<rparr>])
      else (IB_OK, [\<lparr>start = 9, bytes = 1, repl = []\<rparr>]))"


subsection \<open>Script rules\<close>

text \<open>
  Two runs of a script rule: the lock cannot be taken before the Lua thread is
  created, and it cannot be taken when the thread is to be joined.
\<close>

definition gate_busy :: lua_outcomes where
  "gate_busy = \<lparr>lock_new = IB_EUNKNOWN, new_thread = IB_OK, unlock_new = IB_OK,
     eval_status = IB_OK, eval_result = 1, lock_join = IB_OK, join_thread = IB_OK,
     unlock_join = IB_OK\<rparr>"

definition gate_busy_at_join :: lua_outcomes where
  "gate_busy_at_join = \<lparr>lock_new = IB_OK, new_thread = IB_OK, unlock_new = IB_OK,
     eval_status = IB_OK, eval_result = 1, lock_join = IB_EUNKNOWN, join_thread = IB_OK,
     unlock_join = IB_OK\<rparr>"

section \<open>Properties of the body filter\<close>

subsection \<open>The copy loop\<close>

lemma copy_loop_eq:
  "copy_loop f k =
     (if k \<le> 0 then Some f
      else if nat k \<le> length (reader f) then
        Some (f\<lparr>output_buffer := output_buffer f @ take (nat k) (reader f),
                reader := drop (nat k) (reader f),
                buffered := buffered f - nat k,
                bytes_done := bytes_done f + nat k\<rparr>)
      else None)"
proof (cases "k \<le> 0")
  case True
  then show ?thesis by (simp add: copy_loop.simps)
next
  case False
  then have k: "0 < k" by simp
  show ?thesis
  proof (cases "nat k \<le> length (reader f)")
    case True
    with k show ?thesis
      apply (subst copy_loop.simps)
      apply (simp add: TSIOBufferCopy_def TSIOBufferReaderConsume_def Let_def min_def)
      apply (subst copy_loop.simps)
      apply simp
      done
  next
    case False
    then have lt: "int (length (reader f)) < k" by linarith
    show ?thesis
    proof (cases "reader f = []")
      case True
      with k show ?thesis
        by (subst copy_loop.simps) (simp add: TSIOBufferCopy_def Let_def)
    next
      case ne: False
      with k lt False show ?thesis
        apply (subst copy_loop.simps)
        apply (simp add: TSIOBufferCopy_def TSIOBufferReaderConsume_def Let_def min_def)
        apply (subst copy_loop.simps)
        apply (simp add: TSIOBufferCopy_def TSIOBufferReaderConsume_def Let_def min_def)
        done
    qed
  qed
qed

lemma copy_loop_nat:
  "copy_loop f (int k) =
     (if k \<le> length (reader f) then
        Some (f\<lparr>output_buffer := output_buffer f @ take k (reader f),
                reader := drop k (reader f),
                buffered := buffered f - k,
                bytes_done := bytes_done f + k\<rparr>)
      else None)"
  by (cases "k = 0") (simp_all add: copy_loop_eq)

subsection \<open>The comparison function and the sort\<close>

lemma qcompare_exact:
  assumes "start a < 2 ^ 31" "start b < 2 ^ 31"
  shows "qcompare a b = int (start b) - int (start a)"
proof -
  let ?k = "int (start b) - int (start a)"
  have d: "(word_of_nat (start b) :: 64 word) - word_of_nat (start a) = word_of_int ?k"
    by simp
  have u: "(ucast (word_of_int ?k :: 64 word) :: 32 word) = word_of_int ?k"
    by (rule ucast_down_wi) (simp add: is_down)
  have r: "- (2 ^ 31) \<le> ?k" "?k < 2 ^ 31"
    using assms by simp_all
  have "sint (word_of_int ?k :: 32 word) = ?k"
    unfolding signed_of_int using r by (simp add: signed_take_bit_int_eq_self)
  then show ?thesis
    unfolding qcompare_def d u .
qed

lemma set_qsort_insert: "set (qsort_insert cmp x ys) = insert x (set ys)"
  by (induction ys) auto

lemma set_qsort: "set (qsort cmp xs) = set xs"
  by (induction xs) (simp_all add: set_qsort_insert)

lemma length_qsort_insert: "length (qsort_insert cmp x ys) = Suc (length ys)"
  by (induction ys) auto

lemma length_qsort: "length (qsort cmp xs) = length xs"
  by (induction xs) (simp_all add: length_qsort_insert)

lemma sorted_qsort_insert:
  assumes "sorted_wrt (\<lambda>a b. start b \<le> start a) ys"
    and "start x < 2 ^ 31" and "\<forall>y\<in>set ys. start y < 2 ^ 31"
  shows "sorted_wrt (\<lambda>a b. start b \<le> start a) (qsort_insert qcompare x ys)"
  using assms
proof (induction ys)
  case Nil
  then show ?case by simp
next
  case (Cons y ys)
  then have c: "qcompare x y = int (start y) - int (start x)"
    by (simp add: qcompare_exact)
  show ?case
  proof (cases "qcompare x y \<le> 0")
    case True
    with c Cons.prems show ?thesis by (auto simp: le_trans)
  next
    case False
    with c Cons show ?thesis by (auto simp: set_qsort_insert)
  qed
qed

lemma sorted_qsort:
  assumes "\<forall>y\<in>set xs. start y < 2 ^ 31"
  shows "sorted_wrt (\<lambda>a b. start b \<le> start a) (qsort qcompare xs)"
  using assms
  by (induction xs) (simp_all add: sorted_qsort_insert set_qsort)

lemma sorted_rev_qsort:
  assumes "\<forall>y\<in>set xs. start y < 2 ^ 31"
  shows "sorted_wrt (\<lambda>a b. start a \<le> start b) (rev (qsort qcompare xs))"
  using sorted_qsort [OF assms] by (simp add: sorted_wrt_rev)

subsection \<open>One pass of the edit loop\<close>

lemma edit_loop_Cons:
  "edit_loop final (e # es) f nb rc =
     (if start e < bytes_done f then edit_loop final es (drop_edit f e) nb IB_EBADVAL
      else if int (start e + bytes e) > int (bytes_done f) + nb then
        (if final then edit_loop final es (drop_edit f e) nb IB_EBADVAL
         else Some (e # es, f, int (start e) - int (bytes_done f), IB_EAGAIN))
      else if start e - bytes_done f \<le> length (reader f) then
        edit_loop final es (apply_edit f e) (int (bytes_done f) + nb - int (start e + bytes e)) rc
      else None)"
proof (cases "start e < bytes_done f")
  case True
  then show ?thesis by (simp add: drop_edit_def)
next
  case False
  define k where "k = start e - bytes_done f"
  have ik: "int (start e) - int (bytes_done f) = int k" and se: "start e = bytes_done f + k"
    using False by (simp_all add: k_def)
  show ?thesis
  proof (cases "int (start e + bytes e) > int (bytes_done f) + nb")
    case True
    with False show ?thesis by (simp add: drop_edit_def)
  next
    case inr: False
    have nbq: "nb - int k - int (bytes e) = int (bytes_done f) + nb - int (start e + bytes e)"
      by (simp add: se)
    show ?thesis
    proof (cases "k \<le> length (reader f)")
      case True
      have se': "k + bytes_done f = start e" using se by simp
      have R: "f\<lparr>reader := drop (k + bytes e) (reader f),
              buffered := buffered f - (k + bytes e),
              bytes_done := bytes e + (k + bytes_done f),
              output_buffer := output_buffer f @ take k (reader f) @ repl e,
              offs := offs f + (int (repl_len e) - int (bytes e)),
              applied := applied f @ [e]\<rparr> = apply_edit f e"
        by (simp add: apply_edit_def k_def [symmetric] se' add.commute)
      have N: "nb - int k - int (bytes e) = int (bytes_done f) + nb - int (start e + bytes e)"
        by (simp add: se)
      from False inr True show ?thesis
        unfolding edit_loop.simps ik
        by (simp add: copy_loop_nat Let_def TSIOBufferReaderConsume_def
            TSIOBufferWrite_def add.commute R N k_def [symmetric] del: of_nat_add)
    next
      case nk: False
      from False inr nk show ?thesis
        unfolding edit_loop.simps ik
        by (simp add: copy_loop_nat k_def [symmetric])
    qed
  qed
qed

declare edit_loop.simps(2) [simp del]

lemma edit_loop_step:
  "edit_loop final (e # es) f nb rc =
     (if abandons final f nb e then edit_loop final es (drop_edit f e) nb IB_EBADVAL
      else if defers final f nb e then
        Some (e # es, f, int (start e) - int (bytes_done f), IB_EAGAIN)
      else if start e - bytes_done f \<le> length (reader f) then
        edit_loop final es (apply_edit f e)
          (int (bytes_done f) + nb - int (start e + bytes e)) rc
      else None)"
  unfolding edit_loop_Cons abandons_def defers_def by auto

lemma applies_in_range:
  assumes "\<not> abandons final f nb e" and "\<not> defers final f nb e"
  shows "bytes_done f \<le> start e" and "int (start e + bytes e) \<le> int (bytes_done f) + nb"
  using assms unfolding abandons_def defers_def by auto

lemma drop_edit_fields [simp]:
  "output_buffer (drop_edit f e) = output_buffer f"
  "output_vio_nbytes (drop_edit f e) = output_vio_nbytes f"
  "buffering (drop_edit f e) = buffering f"
  "reader (drop_edit f e) = reader f"
  "buf_limit (drop_edit f e) = buf_limit f"
  "buffered (drop_edit f e) = buffered f"
  "edits (drop_edit f e) = edits f"
  "offs (drop_edit f e) = offs f"
  "bytes_done (drop_edit f e) = bytes_done f"
  "applied (drop_edit f e) = applied f"
  "dropped (drop_edit f e) = dropped f @ [e]"
  by (simp_all add: drop_edit_def)

lemma apply_edit_fields [simp]:
  "output_buffer (apply_edit f e) =
     output_buffer f @ take (start e - bytes_done f) (reader f) @ repl e"
  "output_vio_nbytes (apply_edit f e) = output_vio_nbytes f"
  "buffering (apply_edit f e) = buffering f"
  "reader (apply_edit f e) = drop (start e - bytes_done f + bytes e) (reader f)"
  "buf_limit (apply_edit f e) = buf_limit f"
  "buffered (apply_edit f e) = buffered f - (start e - bytes_done f) - bytes e"
  "edits (apply_edit f e) = edits f"
  "offs (apply_edit f e) = offs f + (int (repl_len e) - int (bytes e))"
  "bytes_done (apply_edit f e) = start e + bytes e"
  "applied (apply_edit f e) = applied f @ [e]"
  "dropped (apply_edit f e) = dropped f"
  by (simp_all add: apply_edit_def)

subsection \<open>Invariants of the edit loop\<close>

lemma accounted_drop_edit: "accounted (drop_edit f e) = accounted f"
  by (simp add: accounted_def)

lemma accounted_apply_edit:
  assumes "accounted f" "bytes_done f \<le> start e" "start e - bytes_done f \<le> length (reader f)"
  shows "accounted (apply_edit f e)"
  using assms by (simp add: accounted_def edit_delta_def)

lemma edit_loop_accounted:
  assumes "edit_loop final ps f nb rc = Some (rest, f', nb', rc')" and "accounted f"
  shows "accounted f'"
  using assms
proof (induction ps arbitrary: f nb rc)
  case Nil
  then show ?case by simp
next
  case (Cons e es)
  from Cons.prems show ?case
    by (auto simp: edit_loop_step accounted_drop_edit split: if_splits
        intro: Cons.IH accounted_apply_edit applies_in_range)
qed

lemma edit_loop_frame:
  assumes "edit_loop final ps f nb rc = Some (rest, f', nb', rc')"
  shows "buffering f' = buffering f \<and> buf_limit f' = buf_limit f \<and> edits f' = edits f
         \<and> output_vio_nbytes f' = output_vio_nbytes f"
  using assms
proof (induction ps arbitrary: f nb rc)
  case Nil
  then show ?case by simp
next
  case (Cons e es)
  from Cons.prems show ?case
    by (auto simp: edit_loop_step split: if_splits dest!: Cons.IH)
qed

lemma consistent_apply_edit: "consistent f \<Longrightarrow> consistent (apply_edit f e)"
  by (simp add: consistent_def)

lemma consistent_drop_edit: "consistent (drop_edit f e) = consistent f"
  by (simp add: consistent_def)

lemma edit_loop_consistent:
  assumes "edit_loop final ps f nb rc = Some (rest, f', nb', rc')" and "consistent f"
  shows "consistent f'"
  using assms
proof (induction ps arbitrary: f nb rc)
  case Nil
  then show ?case by simp
next
  case (Cons e es)
  from Cons.prems show ?case
    by (auto simp: edit_loop_step consistent_drop_edit split: if_splits
        intro: Cons.IH consistent_apply_edit)
qed

lemma edit_loop_suffix:
  assumes "edit_loop final ps f nb rc = Some (rest, f', nb', rc')"
  shows "\<exists>pre. ps = pre @ rest"
  using assms
proof (induction ps arbitrary: f nb rc)
  case Nil
  then show ?case by simp
next
  case (Cons e es)
  from Cons.prems show ?case
    by (auto simp: edit_loop_step split: if_splits dest!: Cons.IH intro: exI [of _ "e # _"] exI [of _ "[]"])
qed

lemma edit_loop_total:
  assumes "nb \<le> int (length (reader f))"
  shows "\<exists>rest f' nb' rc'. edit_loop final ps f nb rc = Some (rest, f', nb', rc')
           \<and> (rest = [] \<longrightarrow> nb' \<le> int (length (reader f'))
                 \<and> int (bytes_done f') + nb' = int (bytes_done f) + nb)"
  using assms
proof (induction ps arbitrary: f nb rc)
  case Nil
  then show ?case by simp
next
  case (Cons e es)
  show ?case
  proof (cases "abandons final f nb e")
    case True
    with Cons.IH [of nb "drop_edit f e" IB_EBADVAL] Cons.prems show ?thesis
      by (simp add: edit_loop_step)
  next
    case na: False
    show ?thesis
    proof (cases "defers final f nb e")
      case True
      with na show ?thesis by (simp add: edit_loop_step)
    next
      case False
      note r = applies_in_range [OF na False]
      let ?nb = "int (bytes_done f) + nb - int (start e + bytes e)"
      from r Cons.prems have k: "start e - bytes_done f \<le> length (reader f)" by linarith
      have "?nb \<le> int (length (reader (apply_edit f e)))"
        using r Cons.prems by simp
      from Cons.IH [OF this, of rc] na False k show ?thesis
        by (simp add: edit_loop_step)
    qed
  qed
qed

lemma edit_loop_break:
  assumes "edit_loop final ps f nb rc = Some (rest, f', nb', rc')" and "rest \<noteq> []"
  shows "\<not> final \<and> rc' = IB_EAGAIN \<and> bytes_done f' \<le> start (hd rest)
         \<and> nb' = int (start (hd rest)) - int (bytes_done f')
         \<and> int (start (hd rest) + bytes (hd rest)) > int (bytes_done f) + nb"
  using assms
proof (induction ps arbitrary: f nb rc)
  case Nil
  then show ?case by simp
next
  case (Cons e es)
  show ?case
  proof (cases "abandons final f nb e")
    case True
    with Cons.prems Cons.IH [of "drop_edit f e" nb IB_EBADVAL] show ?thesis
      by (simp add: edit_loop_step)
  next
    case na: False
    show ?thesis
    proof (cases "defers final f nb e")
      case True
      with na Cons.prems show ?thesis by (auto simp: edit_loop_step defers_def)
    next
      case False
      note r = applies_in_range [OF na False]
      from Cons.prems na False
      have "edit_loop final es (apply_edit f e)
          (int (bytes_done f) + nb - int (start e + bytes e)) rc = Some (rest, f', nb', rc')"
        by (simp add: edit_loop_step split: if_splits)
      from Cons.IH [OF this Cons.prems(2)] r show ?thesis by simp
    qed
  qed
qed

lemma edit_loop_reader:
  assumes "edit_loop final ps f nb rc = Some (rest, f', nb', rc')"
  shows "bytes_done f \<le> bytes_done f'
         \<and> reader f' = drop (bytes_done f' - bytes_done f) (reader f)
         \<and> (\<exists>s. output_buffer f' = output_buffer f @ s)"
  using assms
proof (induction ps arbitrary: f nb rc)
  case Nil
  then show ?case by simp
next
  case (Cons e es)
  show ?case
  proof (cases "abandons final f nb e")
    case True
    with Cons.prems Cons.IH [of "drop_edit f e" nb IB_EBADVAL] show ?thesis
      by (simp add: edit_loop_step)
  next
    case na: False
    show ?thesis
    proof (cases "defers final f nb e")
      case True
      with na Cons.prems show ?thesis by (auto simp: edit_loop_step)
    next
      case False
      note r = applies_in_range [OF na False]
      from Cons.prems na False
      have "edit_loop final es (apply_edit f e)
          (int (bytes_done f) + nb - int (start e + bytes e)) rc = Some (rest, f', nb', rc')"
        by (simp add: edit_loop_step split: if_splits)
      from Cons.IH [OF this] r show ?thesis by (auto simp: add.commute)
    qed
  qed
qed

subsection \<open>flush_data and buffer_data_chunk\<close>

lemma flush_data_eq:
  "flush_data f nbytes final =
     (case edit_loop final (rev (qsort qcompare (edits f))) f (effective_nbytes f nbytes) IB_OK of
        None \<Rightarrow> None
      | Some (rest, f1, nb1, rc) \<Rightarrow>
          (case copy_loop (f1\<lparr>edits := rev rest\<rparr>) nb1 of
             None \<Rightarrow> None
           | Some f2 \<Rightarrow>
               Some (rc, if final
                         then f2\<lparr>output_vio_nbytes := Some (int (bytes_done f2) + offs f2)\<rparr>
                         else f2)))"
  by (cases "edits f = []") (simp_all add: flush_data_def effective_nbytes_def Let_def)

lemma copy_loop_accounted:
  assumes "copy_loop f k = Some f1" and "accounted f"
  shows "accounted f1"
  using assms by (auto simp: copy_loop_eq accounted_def split: if_splits)

lemma flush_data_accounted:
  assumes "flush_data f nbytes final = Some (rc, f')" and "accounted f"
  shows "accounted f'"
proof -
  from assms(1) obtain rest f1 nb1 f2 where
    l: "edit_loop final (rev (qsort qcompare (edits f))) f (effective_nbytes f nbytes) IB_OK
          = Some (rest, f1, nb1, rc)"
    and c: "copy_loop (f1\<lparr>edits := rev rest\<rparr>) nb1 = Some f2"
    and f': "f' = (if final then f2\<lparr>output_vio_nbytes := Some (int (bytes_done f2) + offs f2)\<rparr>
                   else f2)"
    by (auto simp: flush_data_eq split: option.splits)
  have "accounted f1" using l assms(2) by (rule edit_loop_accounted)
  then have "accounted (f1\<lparr>edits := rev rest\<rparr>)" by (simp add: accounted_def)
  with c have "accounted f2" by (rule copy_loop_accounted)
  then show ?thesis by (simp add: f' accounted_def)
qed

lemma flush_data_commit:
  assumes "flush_data f nbytes True = Some (rc, f')"
  shows "output_vio_nbytes f' = Some (int (bytes_done f') + offs f')"
  using assms by (auto simp: flush_data_eq split: option.splits)

lemma buffer_data_chunk_accounted:
  assumes "buffer_data_chunk f rd n = Some (rc, f')" and "accounted f"
  shows "accounted f'"
proof (cases "buffering f = IOBUF_DISCARD")
  case True
  with assms show ?thesis
    by (auto simp: buffer_data_chunk_def accounted_def split: if_splits)
next
  case False
  with assms(1) obtain rc1 f1 where
    s1: "(if buffering f = IOBUF_BUFFER_FLUSHALL \<and> int (buffered f) + n > int (buf_limit f)
          then flush_data f (- 1) False else Some (IB_OK, f)) = Some (rc1, f1)"
    by (auto simp: buffer_data_chunk_def split: option.splits)
  have a1: "accounted f1"
    using s1 assms(2) by (auto split: if_splits intro: flush_data_accounted)
  let ?f2 = "f1\<lparr>reader := fst (TSIOBufferCopy (reader f1) rd n),
                 buffered := buffered f1 + snd (TSIOBufferCopy (reader f1) rd n)\<rparr>"
  have a2: "accounted ?f2" using a1 by (simp add: accounted_def)
  from assms(1) False s1 have
    "(if buffering ?f2 = IOBUF_NOBUF then flush_data ?f2 (- 1) False
      else if buffering ?f2 = IOBUF_BUFFER_FLUSHPART \<and> buffered ?f2 > buf_limit ?f2
      then flush_data ?f2 (int (buffered ?f2) - int (buf_limit ?f2)) False
      else Some (rc1, ?f2)) = Some (rc, f')"
    by (simp add: buffer_data_chunk_def Let_def)
  with a2 show ?thesis
    by (auto split: if_splits intro: flush_data_accounted)
qed

lemma accounted_fresh_ctx: "accounted (fresh_ctx mode limit)"
  by (simp add: accounted_def fresh_ctx_def)

section \<open>Data that passes through the filter\<close>

subsection \<open>Flushing without edits\<close>

lemma flush_data_no_edits:
  assumes "edits f = []" and "effective_nbytes f nbytes \<le> int (length (reader f))"
  shows "flush_data f nbytes final =
     Some (IB_OK,
       (let n = nat (effective_nbytes f nbytes);
            f2 = f\<lparr>output_buffer := output_buffer f @ take n (reader f),
                   reader := drop n (reader f),
                   buffered := buffered f - n,
                   bytes_done := bytes_done f + n\<rparr>
        in if final then f2\<lparr>output_vio_nbytes := Some (int (bytes_done f2) + offs f2)\<rparr>
           else f2))"
proof (cases "effective_nbytes f nbytes \<le> 0")
  case True
  then have "nat (effective_nbytes f nbytes) = 0" by simp
  with assms(1) True show ?thesis
    by (simp add: flush_data_eq copy_loop_eq Let_def)
next
  case False
  have "f\<lparr>edits := []\<rparr> = f" using assms(1) by simp
  with assms False show ?thesis
    by (simp add: flush_data_eq copy_loop_eq Let_def)
qed

lemma buffer_data_chunk_no_edits:
  assumes "passes_on f"
  shows "\<exists>f'. buffer_data_chunk f rd (int n) = Some (IB_OK, f') \<and> passes_on f'
           \<and> output_buffer f' @ reader f' = output_buffer f @ reader f @ take n rd"
proof -
  from assms have c: "buffered f = length (reader f)" and e: "edits f = []"
    and d: "buffering f \<noteq> IOBUF_DISCARD"
    by (simp_all add: passes_on_def consistent_def)
  define f1 where "f1 = (if buffering f = IOBUF_BUFFER_FLUSHALL
                           \<and> int (buffered f) + int n > int (buf_limit f)
      then f\<lparr>output_buffer := output_buffer f @ reader f, reader := [],
             buffered := 0, bytes_done := bytes_done f + length (reader f)\<rparr> else f)"
  have s1: "(if buffering f = IOBUF_BUFFER_FLUSHALL \<and> int (buffered f) + int n > int (buf_limit f)
             then flush_data f (- 1) False else Some (IB_OK, f)) = Some (IB_OK, f1)"
    using c e by (simp add: f1_def flush_data_no_edits effective_nbytes_def Let_def)
  have p1: "buffered f1 = length (reader f1)" "edits f1 = []" "buffering f1 = buffering f"
    "output_buffer f1 @ reader f1 = output_buffer f @ reader f"
    using c e by (simp_all add: f1_def)
  define f2 where "f2 = f1\<lparr>reader := reader f1 @ take n rd,
                            buffered := buffered f1 + min n (length rd)\<rparr>"
  have p2: "buffered f2 = length (reader f2)" "edits f2 = []" "buffering f2 = buffering f"
    "output_buffer f2 @ reader f2 = output_buffer f @ reader f @ take n rd"
    using p1 by (simp_all add: f2_def)
  have b: "buffer_data_chunk f rd (int n) =
     (if buffering f2 = IOBUF_NOBUF then flush_data f2 (- 1) False
      else if buffering f2 = IOBUF_BUFFER_FLUSHPART \<and> buffered f2 > buf_limit f2
      then flush_data f2 (int (buffered f2) - int (buf_limit f2)) False
      else Some (IB_OK, f2))"
    using d unfolding buffer_data_chunk_def s1
    by (simp add: TSIOBufferCopy_def Let_def f2_def)
  show ?thesis
  proof (cases "buffering f2 = IOBUF_NOBUF")
    case True
    with p2 d show ?thesis unfolding b
      by (simp add: flush_data_no_edits effective_nbytes_def Let_def passes_on_def consistent_def)
  next
    case nn: False
    show ?thesis
    proof (cases "buffering f2 = IOBUF_BUFFER_FLUSHPART \<and> buffered f2 > buf_limit f2")
      case True
      then have "effective_nbytes f2 (int (buffered f2) - int (buf_limit f2))
                 = int (buffered f2 - buf_limit f2)"
        by (auto simp: effective_nbytes_def)
      with True nn p2 d show ?thesis unfolding b
        by (simp add: flush_data_no_edits Let_def passes_on_def consistent_def)
    next
      case False
      with nn p2 d show ?thesis unfolding b
        by (auto simp: passes_on_def consistent_def)
    qed
  qed
qed

lemma data_loop_no_edits:
  assumes "passes_on (fctx st)" and "\<forall>b. snd (ib_notify_body b) = []"
  shows "\<exists>st'. data_loop ib_notify_body st blocks = Some st' \<and> passes_on (fctx st')
           \<and> output_buffer (fctx st') @ reader (fctx st')
              = output_buffer (fctx st) @ reader (fctx st) @ concat blocks"
  using assms(1)
proof (induction blocks arbitrary: st)
  case Nil
  then show ?case by simp
next
  case (Cons b bs)
  obtain nrc where nb: "ib_notify_body b = (nrc, [])"
    using assms(2) by (metis prod.collapse)
  from Cons.prems have e: "edits (fctx st) = []" by (simp add: passes_on_def)
  then have f0: "(fctx st)\<lparr>edits := edits (fctx st) @ []\<rparr> = fctx st" by simp
  from buffer_data_chunk_no_edits [OF Cons.prems, of "concat (b # bs)" "length b"]
  obtain f' where r: "buffer_data_chunk (fctx st) (concat (b # bs)) (int (length b)) = Some (IB_OK, f')"
    and p: "passes_on f'"
    and o: "output_buffer f' @ reader f' = output_buffer (fctx st) @ reader (fctx st) @ b"
    by auto
  define st1 where "st1 = st\<lparr>fctx := f', input_ndone := input_ndone st + int (length b),
     errlog := errlog st @ (if nrc \<noteq> IB_OK then [''Error %d notifying body data.''] else []) @ []\<rparr>"
  have pb: "process_block ib_notify_body st (concat (b # bs)) (length b)
            = Some (st1, TSIOBufferReaderConsume (concat (b # bs)) (length b))"
    using nb r f0 by (simp add: process_block_def st1_def Let_def)
  have "passes_on (fctx st1)" using p by (simp add: st1_def)
  from Cons.IH [OF this] obtain st' where
    dl: "data_loop ib_notify_body st1 bs = Some st'" and ps: "passes_on (fctx st')"
    and os: "output_buffer (fctx st') @ reader (fctx st')
       = output_buffer (fctx st1) @ reader (fctx st1) @ concat bs"
    by blast
  have "output_buffer (fctx st1) @ reader (fctx st1) @ concat bs
        = (output_buffer f' @ reader f') @ concat bs"
    by (simp add: st1_def)
  also have "\<dots> = output_buffer (fctx st) @ reader (fctx st) @ concat (b # bs)"
    unfolding o by simp
  finally have "output_buffer (fctx st') @ reader (fctx st')
       = output_buffer (fctx st) @ reader (fctx st) @ concat (b # bs)"
    using os by simp
  moreover have "data_loop ib_notify_body st (b # bs) = Some st'"
    using pb dl by (simp del: concat.simps)
  ultimately show ?case using ps by blast
qed


subsection \<open>The mode in which data is discarded\<close>

lemma buffer_data_chunk_discard:
  assumes "buffering f = IOBUF_DISCARD"
  shows "buffer_data_chunk f rd n
         = Some (IB_OK, if 0 < buffered f
                        then f\<lparr>reader := drop (buffered f) (reader f), buffered := 0\<rparr> else f)"
  using assms by (simp add: buffer_data_chunk_def TSIOBufferReaderConsume_def)

lemma data_loop_discard:
  assumes "buffering (fctx st) = IOBUF_DISCARD" and "consistent (fctx st)"
    and "edits (fctx st) = []" and "\<forall>b. snd (ib_notify_body b) = []"
  shows "\<exists>st'. data_loop ib_notify_body st blocks = Some st'
           \<and> buffering (fctx st') = IOBUF_DISCARD \<and> consistent (fctx st')
           \<and> edits (fctx st') = []
           \<and> output_buffer (fctx st') = output_buffer (fctx st)
           \<and> reader (fctx st') = (if blocks = [] then reader (fctx st) else [])"
  using assms(1-3)
proof (induction blocks arbitrary: st)
  case Nil
  then show ?case by simp
next
  case (Cons b bs)
  obtain nrc where nb: "ib_notify_body b = (nrc, [])"
    using assms(4) by (metis prod.collapse)
  from Cons.prems have f0: "(fctx st)\<lparr>edits := edits (fctx st) @ []\<rparr> = fctx st" by simp
  define f' where "f' = (if 0 < buffered (fctx st)
       then (fctx st)\<lparr>reader := drop (buffered (fctx st)) (reader (fctx st)), buffered := 0\<rparr>
       else fctx st)"
  have r: "buffer_data_chunk (fctx st) (concat (b # bs)) (int (length b)) = Some (IB_OK, f')"
    unfolding f'_def using Cons.prems(1) by (rule buffer_data_chunk_discard)
  have p: "buffering f' = IOBUF_DISCARD" "consistent f'" "edits f' = []"
    "output_buffer f' = output_buffer (fctx st)" "reader f' = []"
    using Cons.prems by (auto simp: f'_def consistent_def)
  define st1 where "st1 = st\<lparr>fctx := f', input_ndone := input_ndone st + int (length b),
     errlog := errlog st @ (if nrc \<noteq> IB_OK then [''Error %d notifying body data.''] else []) @ []\<rparr>"
  have pb: "process_block ib_notify_body st (concat (b # bs)) (length b)
            = Some (st1, TSIOBufferReaderConsume (concat (b # bs)) (length b))"
    using nb r f0 by (simp add: process_block_def st1_def Let_def)
  have q: "buffering (fctx st1) = IOBUF_DISCARD" "consistent (fctx st1)" "edits (fctx st1) = []"
    using p by (simp_all add: st1_def)
  from Cons.IH [OF q] obtain st' where
    dl: "data_loop ib_notify_body st1 bs = Some st'"
    and ps: "buffering (fctx st') = IOBUF_DISCARD" "consistent (fctx st')" "edits (fctx st') = []"
      "output_buffer (fctx st') = output_buffer (fctx st1)"
      "reader (fctx st') = (if bs = [] then reader (fctx st1) else [])"
    by blast
  have "data_loop ib_notify_body st (b # bs) = Some st'"
    using pb dl by (simp del: concat.simps)
  moreover have "output_buffer (fctx st') = output_buffer (fctx st)" "reader (fctx st') = []"
    using ps p by (simp_all add: st1_def)
  ultimately show ?case using ps(1-3) by simp
qed

subsection \<open>Flushes that leave no edit behind\<close>

lemma edit_loop_no_defer:
  assumes "edit_loop final ps f nb rc = Some (rest, f', nb', rc')"
    and "final \<or> (\<forall>e\<in>set ps. bytes_done f \<le> start e
                    \<longrightarrow> int (start e + bytes e) \<le> int (bytes_done f) + nb)"
  shows "rest = []"
proof (rule ccontr)
  assume ne: "rest \<noteq> []"
  from edit_loop_break [OF assms(1) ne] have nf: "\<not> final"
    and ge: "bytes_done f' \<le> start (hd rest)"
    and gt: "int (start (hd rest) + bytes (hd rest)) > int (bytes_done f) + nb"
    by simp_all
  from edit_loop_reader [OF assms(1)] ge have ge0: "bytes_done f \<le> start (hd rest)" by simp
  from edit_loop_suffix [OF assms(1)] ne have "hd rest \<in> set ps"
    by (metis in_set_conv_decomp list.collapse)
  with assms(2) nf gt ge0 show False by force
qed

lemma edit_loop_nonneg:
  assumes "edit_loop final ps f nb rc = Some ([], f', nb', rc')" and "0 \<le> nb"
  shows "0 \<le> nb'"
  using assms
proof (induction ps arbitrary: f nb rc)
  case Nil
  then show ?case by simp
next
  case (Cons e es)
  show ?case
  proof (cases "abandons final f nb e")
    case True
    with Cons.prems Cons.IH [of "drop_edit f e" nb IB_EBADVAL] show ?thesis
      by (simp add: edit_loop_step)
  next
    case na: False
    show ?thesis
    proof (cases "defers final f nb e")
      case True
      with na Cons.prems show ?thesis by (simp add: edit_loop_step)
    next
      case False
      note r = applies_in_range [OF na False]
      from Cons.prems na False
      have "edit_loop final es (apply_edit f e)
          (int (bytes_done f) + nb - int (start e + bytes e)) rc = Some ([], f', nb', rc')"
        by (simp add: edit_loop_step split: if_splits)
      from Cons.IH [OF this] r show ?thesis by simp
    qed
  qed
qed

text \<open>
  A flush in which no edit is left behind consumes exactly the bytes asked for.
  No edit is left behind when every edit that starts at or after \<open>bytes_done\<close>
  ends within these bytes.
\<close>

lemma flush_data_whole:
  assumes c: "consistent f"
    and m: "0 \<le> effective_nbytes f nbytes" "effective_nbytes f nbytes \<le> int (buffered f)"
    and h: "final \<or> (\<forall>e\<in>set (edits f). bytes_done f \<le> start e
              \<longrightarrow> int (start e + bytes e) \<le> int (bytes_done f) + effective_nbytes f nbytes)"
  shows "\<exists>rc f'. flush_data f nbytes final = Some (rc, f')
           \<and> reader f' = drop (nat (effective_nbytes f nbytes)) (reader f)
           \<and> buffered f' = buffered f - nat (effective_nbytes f nbytes)
           \<and> bytes_done f' = bytes_done f + nat (effective_nbytes f nbytes)
           \<and> edits f' = [] \<and> consistent f'
           \<and> buffering f' = buffering f \<and> buf_limit f' = buf_limit f"
proof -
  let ?m = "effective_nbytes f nbytes"
  let ?ps = "rev (qsort qcompare (edits f))"
  from c have bl: "buffered f = length (reader f)" by (simp add: consistent_def)
  with m have le: "?m \<le> int (length (reader f))" by simp
  from edit_loop_total [OF le, of final ?ps IB_OK] obtain rest f1 nb1 rc where
    l: "edit_loop final ?ps f ?m IB_OK = Some (rest, f1, nb1, rc)"
    and t: "rest = [] \<longrightarrow> nb1 \<le> int (length (reader f1))
              \<and> int (bytes_done f1) + nb1 = int (bytes_done f) + ?m"
    by blast
  have "final \<or> (\<forall>e\<in>set ?ps. bytes_done f \<le> start e
                     \<longrightarrow> int (start e + bytes e) \<le> int (bytes_done f) + ?m)"
    using h by (simp add: set_qsort)
  with l have r: "rest = []" by (rule edit_loop_no_defer)
  from t r have n1: "nb1 \<le> int (length (reader f1))"
    and hz: "int (bytes_done f1) + nb1 = int (bytes_done f) + ?m" by simp_all
  from l r m(1) have n0: "0 \<le> nb1" by (auto intro: edit_loop_nonneg)
  from edit_loop_reader [OF l] have bd: "bytes_done f \<le> bytes_done f1"
    and rd: "reader f1 = drop (bytes_done f1 - bytes_done f) (reader f)" by simp_all
  from edit_loop_consistent [OF l c] have c1: "buffered f1 = length (reader f1)"
    by (simp add: consistent_def)
  from edit_loop_frame [OF l] have fr: "buffering f1 = buffering f" "buf_limit f1 = buf_limit f"
    by simp_all
  have k: "nat nb1 + (bytes_done f1 - bytes_done f) = nat ?m"
    using hz bd n0 m(1) by linarith
  have k2: "bytes_done f1 + nat nb1 = bytes_done f + nat ?m"
    using hz bd n0 m(1) by linarith
  define f2 where "f2 = f1\<lparr>edits := [], output_buffer := output_buffer f1 @ take (nat nb1) (reader f1),
                reader := drop (nat nb1) (reader f1),
                buffered := buffered f1 - nat nb1,
                bytes_done := bytes_done f1 + nat nb1\<rparr>"
  have cl: "copy_loop (f1\<lparr>edits := rev rest\<rparr>) nb1 = Some f2"
  proof (cases "nb1 \<le> 0")
    case True
    with n0 have "nb1 = 0" by simp
    then show ?thesis by (simp add: copy_loop_eq r f2_def)
  next
    case False
    with n1 show ?thesis by (simp add: copy_loop_eq r f2_def)
  qed
  have p: "reader f2 = drop (nat ?m) (reader f)"
    "buffered f2 = buffered f - nat ?m"
    "bytes_done f2 = bytes_done f + nat ?m"
    "edits f2 = []" "consistent f2" "buffering f2 = buffering f" "buf_limit f2 = buf_limit f"
    using rd c1 k k2 bl fr by (simp_all add: f2_def consistent_def)
  show ?thesis
    using l cl p by (cases final) (simp_all add: flush_data_eq consistent_def)
qed

section \<open>Edits that are abandoned or left for the next call\<close>


lemma edit_loop_status:
  assumes "edit_loop final ps f nb rc = Some (rest, f', nb', rc')"
  shows "\<exists>ds. dropped f' = dropped f @ ds
           \<and> rc' = (if rest \<noteq> [] then IB_EAGAIN else if ds = [] then rc else IB_EBADVAL)"
  using assms
proof (induction ps arbitrary: f nb rc)
  case Nil
  then show ?case by simp
next
  case (Cons e es)
  show ?case
  proof (cases "abandons final f nb e")
    case True
    with Cons.prems have "edit_loop final es (drop_edit f e) nb IB_EBADVAL
        = Some (rest, f', nb', rc')" by (simp add: edit_loop_step)
    from Cons.IH [OF this] obtain ds where
      "dropped f' = dropped (drop_edit f e) @ ds"
      "rc' = (if rest \<noteq> [] then IB_EAGAIN else if ds = [] then IB_EBADVAL else IB_EBADVAL)"
      by blast
    then show ?thesis by (intro exI [of _ "e # ds"]) simp
  next
    case na: False
    show ?thesis
    proof (cases "defers final f nb e")
      case True
      with na Cons.prems show ?thesis by (auto simp: edit_loop_step)
    next
      case False
      from Cons.prems na False
      have "edit_loop final es (apply_edit f e)
          (int (bytes_done f) + nb - int (start e + bytes e)) rc = Some (rest, f', nb', rc')"
        by (simp add: edit_loop_step split: if_splits)
      from Cons.IH [OF this] show ?thesis by simp
    qed
  qed
qed


text \<open>
  An edit that starts below \<open>bytes_done\<close> or ends beyond the horizon is never
  applied: the loop abandons it, unless it leaves it in the list.
\<close>

lemma edit_loop_drops:
  assumes "edit_loop final ps f nb rc = Some (rest, f', nb', rc')"
    and "e \<in> set ps"
    and "start e < bytes_done f \<or> int (start e + bytes e) > int (bytes_done f) + nb"
  shows "e \<in> set rest \<or> e \<in> set (dropped f')"
  using assms
proof (induction ps arbitrary: f nb rc)
  case Nil
  then show ?case by simp
next
  case (Cons x xs)
  show ?case
  proof (cases "abandons final f nb x")
    case True
    with Cons.prems(1) have l: "edit_loop final xs (drop_edit f x) nb IB_EBADVAL
        = Some (rest, f', nb', rc')" by (simp add: edit_loop_step)
    show ?thesis
    proof (cases "e = x")
      case True
      from edit_loop_status [OF l] obtain ds where "dropped f' = dropped (drop_edit f x) @ ds"
        by blast
      with True show ?thesis by simp
    next
      case False
      with Cons.prems(2) have "e \<in> set xs" by simp
      moreover have "start e < bytes_done (drop_edit f x)
          \<or> int (start e + bytes e) > int (bytes_done (drop_edit f x)) + nb"
        using Cons.prems(3) by simp
      ultimately show ?thesis using Cons.IH [OF l] by blast
    qed
  next
    case na: False
    show ?thesis
    proof (cases "defers final f nb x")
      case True
      with na Cons.prems(1) have "rest = x # xs" by (simp add: edit_loop_step)
      with Cons.prems(2) show ?thesis by simp
    next
      case False
      note r = applies_in_range [OF na False]
      from Cons.prems(1) na False
      have l: "edit_loop final xs (apply_edit f x)
          (int (bytes_done f) + nb - int (start x + bytes x)) rc = Some (rest, f', nb', rc')"
        by (simp add: edit_loop_step split: if_splits)
      from r Cons.prems(3) have "e \<noteq> x" by auto
      with Cons.prems(2) have "e \<in> set xs" by simp
      moreover have "start e < bytes_done (apply_edit f x)
          \<or> int (start e + bytes e) > int (bytes_done (apply_edit f x))
                + (int (bytes_done f) + nb - int (start x + bytes x))"
        using Cons.prems(3) r by auto
      ultimately show ?thesis using Cons.IH [OF l] by blast
    qed
  qed
qed

lemma copy_loop_frame:
  assumes "copy_loop f k = Some f1"
  shows "edits f1 = edits f \<and> dropped f1 = dropped f \<and> applied f1 = applied f
         \<and> (\<exists>s. output_buffer f1 = output_buffer f @ s)"
  using assms by (auto simp: copy_loop_eq split: if_splits)

text \<open>
  The status that \<open>flush_data\<close> returns, the edits it abandons and the ones it
  leaves.
\<close>

lemma flush_data_status:
  assumes "flush_data f nbytes final = Some (rc, f')"
  shows "\<exists>ds. dropped f' = dropped f @ ds
           \<and> rc = (if edits f' \<noteq> [] then IB_EAGAIN else if ds = [] then IB_OK else IB_EBADVAL)
           \<and> (final \<longrightarrow> edits f' = [])
           \<and> (\<exists>s. output_buffer f' = output_buffer f @ s)"
proof -
  let ?m = "effective_nbytes f nbytes"
  from assms obtain rest f1 nb1 f2 where
    l: "edit_loop final (rev (qsort qcompare (edits f))) f ?m IB_OK = Some (rest, f1, nb1, rc)"
    and c: "copy_loop (f1\<lparr>edits := rev rest\<rparr>) nb1 = Some f2"
    and f': "f' = (if final then f2\<lparr>output_vio_nbytes := Some (int (bytes_done f2) + offs f2)\<rparr>
                   else f2)"
    by (auto simp: flush_data_eq split: option.splits)
  from edit_loop_status [OF l] obtain ds where
    d: "dropped f1 = dropped f @ ds"
    and s: "rc = (if rest \<noteq> [] then IB_EAGAIN else if ds = [] then IB_OK else IB_EBADVAL)"
    by blast
  from copy_loop_frame [OF c] have e2: "edits f2 = rev rest" and d2: "dropped f2 = dropped f1"
    and o2: "\<exists>s. output_buffer f2 = output_buffer f1 @ s" by simp_all
  from edit_loop_reader [OF l] have o1: "\<exists>s. output_buffer f1 = output_buffer f @ s" by simp
  have fin: "final \<longrightarrow> rest = []" using edit_loop_no_defer [OF l] by blast
  have e': "edits f' = rev rest" and d': "dropped f' = dropped f @ ds"
    using e2 d2 d by (simp_all add: f')
  have o': "\<exists>s. output_buffer f' = output_buffer f @ s"
    using o1 o2 by (auto simp: f')
  show ?thesis
    using e' d' s fin o' by (intro exI [of _ ds]) simp
qed

lemma flush_data_abandons:
  assumes r: "flush_data f nbytes final = Some (rc, f')"
    and b: "\<forall>e\<in>set (edits f). start e < 2 ^ 31"
    and e: "e \<in> set (edits f)"
    and inv: "start e < bytes_done f
              \<or> (final \<and> int (start e + bytes e) > int (bytes_done f) + effective_nbytes f nbytes)"
  shows "e \<notin> set (edits f') \<and> e \<in> set (dropped f')"
proof -
  let ?m = "effective_nbytes f nbytes"
  let ?ps = "rev (qsort qcompare (edits f))"
  from r obtain rest f1 nb1 f2 where
    l: "edit_loop final ?ps f ?m IB_OK = Some (rest, f1, nb1, rc)"
    and c: "copy_loop (f1\<lparr>edits := rev rest\<rparr>) nb1 = Some f2"
    and f': "f' = (if final then f2\<lparr>output_vio_nbytes := Some (int (bytes_done f2) + offs f2)\<rparr>
                   else f2)"
    by (auto simp: flush_data_eq split: option.splits)
  from copy_loop_frame [OF c] have e': "edits f' = rev rest" and d': "dropped f' = dropped f1"
    by (simp_all add: f')
  from edit_loop_suffix [OF l] obtain pre where ps: "?ps = pre @ rest" by blast
  have nr: "e \<notin> set rest"
  proof
    assume er: "e \<in> set rest"
    then have ne: "rest \<noteq> []" by auto
    from edit_loop_break [OF l ne] have nf: "\<not> final"
      and h: "bytes_done f1 \<le> start (hd rest)" by simp_all
    from edit_loop_reader [OF l] have "bytes_done f \<le> bytes_done f1" by simp
    with h have h0: "bytes_done f \<le> start (hd rest)" by simp
    have "sorted_wrt (\<lambda>a b. start a \<le> start b) (pre @ rest)"
      using sorted_rev_qsort [OF b] ps by simp
    then have "sorted_wrt (\<lambda>a b. start a \<le> start b) rest"
      by (simp add: sorted_wrt_append)
    with er ne have "start (hd rest) \<le> start e"
      by (cases rest) auto
    with h0 inv nf show False by simp
  qed
  have ep: "e \<in> set ?ps" using e by (simp add: set_qsort)
  have "start e < bytes_done f \<or> int (start e + bytes e) > int (bytes_done f) + ?m"
    using inv by blast
  from edit_loop_drops [OF l ep this] nr have "e \<in> set (dropped f1)" by simp
  with nr show ?thesis by (simp add: e' d')
qed

section \<open>Applying the edits\<close>

lemma distinct_map_qsort_insert:
  "distinct (map g (qsort_insert cmp x ys)) \<longleftrightarrow> g x \<notin> g ` set ys \<and> distinct (map g ys)"
  by (induction ys) (auto simp: set_qsort_insert)

lemma distinct_map_qsort: "distinct (map g (qsort cmp xs)) = distinct (map g xs)"
  by (induction xs) (simp_all add: distinct_map_qsort_insert set_qsort)





text \<open>
  Where the \<open>int\<close> that \<open>qcompare\<close> returns wraps, the sorted array is not in
  order of \<open>start\<close>: of two edits that start at 0 and at \<open>2 ^ 31\<close>, the loop takes
  the later one first.
\<close>

lemma qcompare_wraps:
  "rev (qsort qcompare [\<lparr>start = 0, bytes = 0, repl = ''A''\<rparr>,
                        \<lparr>start = 2147483648, bytes = 0, repl = ''B''\<rparr>])
     = [\<lparr>start = 2147483648, bytes = 0, repl = ''B''\<rparr>,
        \<lparr>start = 0, bytes = 0, repl = ''A''\<rparr>]"
  by (simp add: qcompare_def)

text \<open>
  For pairwise distinct starts below \<open>2 ^ 31\<close> the sorted array is determined by
  the comparison function, whatever algorithm sorts it.
\<close>

lemma qsort_unique:
  assumes d: "distinct (map start es)" and b: "\<forall>e\<in>set es. start e < 2 ^ 31"
    and s: "set ys = set es" and dy: "distinct (map start ys)"
    and o: "sorted_wrt (\<lambda>a b. start b \<le> start a) ys"
  shows "ys = qsort qcompare es"
proof -
  have "rev ys = rev (qsort qcompare es)"
  proof (rule map_sorted_distinct_set_unique [where f = start])
    show "inj_on start (set (rev ys) \<union> set (rev (qsort qcompare es)))"
      using d s by (simp add: set_qsort distinct_map)
    show "sorted (map start (rev ys))"
      using o by (simp add: sorted_wrt_map sorted_wrt_rev)
    show "distinct (map start (rev ys))"
      using dy by (simp add: rev_map [symmetric])
    show "sorted (map start (rev (qsort qcompare es)))"
      using sorted_rev_qsort [OF b] by (simp add: sorted_wrt_map)
    show "distinct (map start (rev (qsort qcompare es)))"
      using d by (simp add: distinct_map_qsort rev_map [symmetric])
    show "set (rev ys) = set (rev (qsort qcompare es))"
      using s by (simp add: set_qsort)
  qed
  then show ?thesis by simp
qed

section \<open>Invariants of a run\<close>

lemma copy_loop_consistent:
  assumes "copy_loop f k = Some f1" and "consistent f"
  shows "consistent f1"
  using assms by (auto simp: copy_loop_eq consistent_def split: if_splits)

lemma flush_data_consistent:
  assumes "flush_data f nbytes final = Some (rc, f')" and "consistent f"
  shows "consistent f'"
proof -
  from assms(1) obtain rest f1 nb1 f2 where
    l: "edit_loop final (rev (qsort qcompare (edits f))) f (effective_nbytes f nbytes) IB_OK
          = Some (rest, f1, nb1, rc)"
    and c: "copy_loop (f1\<lparr>edits := rev rest\<rparr>) nb1 = Some f2"
    and f': "f' = (if final then f2\<lparr>output_vio_nbytes := Some (int (bytes_done f2) + offs f2)\<rparr>
                   else f2)"
    by (auto simp: flush_data_eq split: option.splits)
  have "consistent f1" using l assms(2) by (rule edit_loop_consistent)
  then have "consistent (f1\<lparr>edits := rev rest\<rparr>)" by (simp add: consistent_def)
  with c have "consistent f2" by (rule copy_loop_consistent)
  then show ?thesis by (simp add: f' consistent_def)
qed

lemma buffer_data_chunk_consistent:
  assumes "buffer_data_chunk f rd n = Some (rc, f')" and "consistent f"
  shows "consistent f'"
proof (cases "buffering f = IOBUF_DISCARD")
  case True
  with assms show ?thesis
    by (auto simp: buffer_data_chunk_def consistent_def TSIOBufferReaderConsume_def
        split: if_splits)
next
  case False
  with assms(1) obtain rc1 f1 where
    s1: "(if buffering f = IOBUF_BUFFER_FLUSHALL \<and> int (buffered f) + n > int (buf_limit f)
          then flush_data f (- 1) False else Some (IB_OK, f)) = Some (rc1, f1)"
    by (auto simp: buffer_data_chunk_def split: option.splits)
  have a1: "consistent f1"
    using s1 assms(2) by (auto split: if_splits intro: flush_data_consistent)
  let ?f2 = "f1\<lparr>reader := fst (TSIOBufferCopy (reader f1) rd n),
                 buffered := buffered f1 + snd (TSIOBufferCopy (reader f1) rd n)\<rparr>"
  have a2: "consistent ?f2" using a1 by (simp add: consistent_def TSIOBufferCopy_def)
  from assms(1) False s1 have
    "(if buffering ?f2 = IOBUF_NOBUF then flush_data ?f2 (- 1) False
      else if buffering ?f2 = IOBUF_BUFFER_FLUSHPART \<and> buffered ?f2 > buf_limit ?f2
      then flush_data ?f2 (int (buffered ?f2) - int (buf_limit ?f2)) False
      else Some (rc1, ?f2)) = Some (rc, f')"
    by (simp add: buffer_data_chunk_def Let_def)
  with a2 show ?thesis
    by (auto split: if_splits intro: flush_data_consistent)
qed

lemma process_block_invariant:
  assumes "process_block ib_notify_body st rd n = Some (st', rd')"
    and "accounted (fctx st)" and "consistent (fctx st)"
  shows "accounted (fctx st') \<and> consistent (fctx st')"
proof -
  obtain nrc added where nb: "ib_notify_body (take n rd) = (nrc, added)"
    by (cases "ib_notify_body (take n rd)")
  let ?f0 = "(fctx st)\<lparr>edits := edits (fctx st) @ added\<rparr>"
  from assms(1) nb obtain rc f1 where
    b: "buffer_data_chunk ?f0 rd (int n) = Some (rc, f1)" and f: "fctx st' = f1"
    by (auto simp: process_block_def Let_def split: option.splits)
  have "accounted ?f0" "consistent ?f0"
    using assms(2,3) by (simp_all add: accounted_def consistent_def)
  with b show ?thesis
    unfolding f by (blast intro: buffer_data_chunk_accounted buffer_data_chunk_consistent)
qed

lemma data_loop_invariant:
  assumes "data_loop ib_notify_body st blocks = Some st'"
    and "accounted (fctx st)" and "consistent (fctx st)"
  shows "accounted (fctx st') \<and> consistent (fctx st')"
  using assms
proof (induction blocks arbitrary: st)
  case Nil
  then show ?case by simp
next
  case (Cons b bs)
  from Cons.prems(1) obtain st1 rd1 where
    pb: "process_block ib_notify_body st (concat (b # bs)) (length b) = Some (st1, rd1)"
    and dl: "data_loop ib_notify_body st1 bs = Some st'"
    by (auto simp del: concat.simps split: option.splits)
  from process_block_invariant [OF pb Cons.prems(2,3)]
  have "accounted (fctx st1)" "consistent (fctx st1)" by simp_all
  with dl show ?case by (rule Cons.IH)
qed

lemma final_flush_returns:
  assumes "consistent f"
  shows "\<exists>rc f'. flush_data f (- 1) True = Some (rc, f') \<and> reader f' = [] \<and> edits f' = []
           \<and> bytes_done f' = bytes_done f + buffered f"
proof -
  have e: "effective_nbytes f (- 1) = int (buffered f)" by (simp add: effective_nbytes_def)
  have "0 \<le> effective_nbytes f (- 1)" "effective_nbytes f (- 1) \<le> int (buffered f)"
    by (simp_all add: e)
  from flush_data_whole [OF assms this, of True] assms show ?thesis
    unfolding e by (auto simp: consistent_def)
qed

lemma flush_data_returns:
  assumes c: "consistent f"
    and m: "effective_nbytes f nbytes \<le> int (buffered f)"
    and h: "final \<or> (\<forall>e\<in>set (edits f). start e \<le> bytes_done f + buffered f)"
  shows "\<exists>rc f'. flush_data f nbytes final = Some (rc, f')"
proof -
  let ?m = "effective_nbytes f nbytes"
  let ?ps = "rev (qsort qcompare (edits f))"
  from c have bl: "buffered f = length (reader f)" by (simp add: consistent_def)
  with m have le: "?m \<le> int (length (reader f))" by simp
  from edit_loop_total [OF le, of final ?ps IB_OK] obtain rest f1 nb1 rc where
    l: "edit_loop final ?ps f ?m IB_OK = Some (rest, f1, nb1, rc)"
    and t: "rest = [] \<longrightarrow> nb1 \<le> int (length (reader f1))"
    by blast
  have "nb1 \<le> int (length (reader f1))"
  proof (cases "rest = []")
    case True
    with t show ?thesis by simp
  next
    case False
    from edit_loop_break [OF l False] have nf: "\<not> final"
      and ge: "bytes_done f1 \<le> start (hd rest)"
      and nb: "nb1 = int (start (hd rest)) - int (bytes_done f1)" by simp_all
    from edit_loop_suffix [OF l] False have "hd rest \<in> set ?ps"
      by (metis in_set_conv_decomp list.collapse)
    then have "hd rest \<in> set (edits f)" by (simp add: set_qsort)
    with h nf have r: "start (hd rest) \<le> bytes_done f + length (reader f)"
      by (auto simp: bl)
    from edit_loop_reader [OF l] have bd: "bytes_done f \<le> bytes_done f1"
      and rd: "reader f1 = drop (bytes_done f1 - bytes_done f) (reader f)" by simp_all
    show ?thesis unfolding nb rd using ge r bd by simp
  qed
  then have "\<exists>f2. copy_loop (f1\<lparr>edits := rev rest\<rparr>) nb1 = Some f2"
    by (cases "nb1 \<le> 0") (simp_all add: copy_loop_eq)
  with l show ?thesis by (auto simp: flush_data_eq)
qed

section \<open>What the filter writes\<close>

subsection \<open>Chained edits and their replacement\<close>

lemma chained_end_pos:
  assumes "chained pos es"
  shows "pos \<le> end_pos pos es \<and> (\<forall>e\<in>set es. start e + bytes e \<le> end_pos pos es)
         \<and> (\<forall>e\<in>set es. pos \<le> start e)"
  using assms
proof (induction es arbitrary: pos)
  case Nil
  show ?case by simp
next
  case (Cons e es)
  from Cons.prems have ge: "pos \<le> start e" and ch: "chained (start e + bytes e) es" by simp_all
  from Cons.IH [OF ch] have a: "start e + bytes e \<le> end_pos (start e + bytes e) es"
    and b: "\<forall>x\<in>set es. start x + bytes x \<le> end_pos (start e + bytes e) es"
    and c: "\<forall>x\<in>set es. start e + bytes e \<le> start x" by simp_all
  from ge a b c show ?case by fastforce
qed




lemma replace_ranges_shift:
  assumes "pos \<le> k" and "chained k B"
  shows "replace_ranges pos inp B
         = take (k - pos) inp @ replace_ranges k (drop (k - pos) inp) B"
proof (cases B)
  case Nil
  then show ?thesis by simp
next
  case (Cons e es)
  with assms have ks: "k \<le> start e" by simp
  have t: "take (start e - pos) inp
           = take (k - pos) inp @ take (start e - k) (drop (k - pos) inp)"
    using take_add [of "k - pos" "start e - k" inp] assms(1) ks by simp
  have d: "start e + bytes e - k + (k - pos) = start e + bytes e - pos"
    using assms(1) ks by simp
  show ?thesis unfolding Cons by (simp add: t d)
qed

lemma replace_ranges_append:
  assumes "chained pos A" and "end_pos pos A \<le> k" and "chained k B"
  shows "replace_ranges pos inp (A @ B)
         = replace_ranges pos (take (k - pos) inp) A @ replace_ranges k (drop (k - pos) inp) B"
  using assms(1,2)
proof (induction A arbitrary: pos inp)
  case Nil
  then show ?case using replace_ranges_shift [OF _ assms(3), of pos inp] by simp
next
  case (Cons a A)
  let ?e = "start a + bytes a"
  from Cons.prems have ge: "pos \<le> start a" and ch: "chained ?e A"
    and ek: "end_pos ?e A \<le> k" by simp_all
  from chained_end_pos [OF ch] ek have le: "?e \<le> k" by simp
  have t: "min (start a - pos) (k - pos) = start a - pos"
    using ge le by simp
  have d1: "pos + (?e - pos) = ?e"
    using ge by simp
  have d2: "k - ?e + (?e - pos) = k - pos"
    using ge le by simp
  show ?case
    using Cons.IH [OF ch ek, of "drop (?e - pos) inp"]
    by (simp add: t d1 d2 drop_take)
qed

lemma replace_ranges_take:
  assumes "chained pos A" and "end_pos pos A \<le> k"
  shows "replace_ranges pos inp A
         = replace_ranges pos (take (k - pos) inp) A @ drop (k - pos) inp"
  using replace_ranges_append [OF assms, of "[]" inp] by simp

subsection \<open>What a flush writes\<close>

lemma edit_loop_writes:
  assumes "edit_loop final ps f nb rc = Some (rest, f', nb', rc')"
  shows "\<exists>new. applied f' = applied f @ new \<and> chained (bytes_done f) new
           \<and> set new \<subseteq> set ps
           \<and> bytes_done f' = end_pos (bytes_done f) new
           \<and> output_buffer f'
              = output_buffer f
                  @ replace_ranges (bytes_done f) (take (bytes_done f' - bytes_done f) (reader f)) new"
  using assms
proof (induction ps arbitrary: f nb rc)
  case Nil
  then show ?case by (intro exI [of _ "[]"]) simp
next
  case (Cons e es)
  show ?case
  proof (cases "abandons final f nb e")
    case True
    with Cons.prems have "edit_loop final es (drop_edit f e) nb IB_EBADVAL
        = Some (rest, f', nb', rc')" by (simp add: edit_loop_step)
    from Cons.IH [OF this] show ?thesis by auto
  next
    case na: False
    show ?thesis
    proof (cases "defers final f nb e")
      case True
      with na Cons.prems show ?thesis
        by (intro exI [of _ "[]"]) (auto simp: edit_loop_step)
    next
      case False
      note r = applies_in_range [OF na False]
      let ?f1 = "apply_edit f e"
      let ?e = "start e + bytes e"
      from Cons.prems na False
      have l: "edit_loop final es ?f1
          (int (bytes_done f) + nb - int (start e + bytes e)) rc = Some (rest, f', nb', rc')"
        by (simp add: edit_loop_step split: if_splits)
      from Cons.IH [OF l] obtain new where
        a: "applied f' = applied ?f1 @ new" and ch: "chained ?e new"
        and sb: "set new \<subseteq> set es"
        and bd: "bytes_done f' = end_pos ?e new"
        and o: "output_buffer f' = output_buffer ?f1
                  @ replace_ranges ?e (take (bytes_done f' - ?e) (reader ?f1)) new"
        by auto
      from chained_end_pos [OF ch] bd have le: "?e \<le> bytes_done f'" by simp
      let ?k = "bytes_done f' - bytes_done f"
      have t: "min (start e - bytes_done f) ?k = start e - bytes_done f"
        using r(1) le by simp
      have d1: "bytes_done f + (?e - bytes_done f) = ?e"
        using r(1) by simp
      have d2: "start e - bytes_done f + bytes e = ?e - bytes_done f"
        using r(1) by simp
      have "output_buffer f' = output_buffer f
              @ replace_ranges (bytes_done f) (take ?k (reader f)) (e # new)"
        unfolding o by (simp add: t d1 d2 drop_take del: of_nat_add)
      with a ch bd r(1) sb show ?thesis
        by (intro exI [of _ "e # new"]) auto
    qed
  qed
qed

lemma edit_loop_bound:
  assumes "edit_loop final ps f nb rc = Some (rest, f', nb', rc')"
    and "nb \<le> int (length (reader f))"
  shows "bytes_done f' \<le> bytes_done f + length (reader f)"
  using assms
proof (induction ps arbitrary: f nb rc)
  case Nil
  then show ?case by simp
next
  case (Cons e es)
  show ?case
  proof (cases "abandons final f nb e")
    case True
    with Cons.prems have "edit_loop final es (drop_edit f e) nb IB_EBADVAL
        = Some (rest, f', nb', rc')" by (simp add: edit_loop_step)
    from Cons.IH [OF this] Cons.prems(2) show ?thesis by simp
  next
    case na: False
    show ?thesis
    proof (cases "defers final f nb e")
      case True
      with na Cons.prems show ?thesis by (auto simp: edit_loop_step)
    next
      case False
      note r = applies_in_range [OF na False]
      let ?f1 = "apply_edit f e"
      from Cons.prems na False
      have l: "edit_loop final es ?f1
          (int (bytes_done f) + nb - int (start e + bytes e)) rc = Some (rest, f', nb', rc')"
        by (simp add: edit_loop_step split: if_splits)
      have "int (bytes_done f) + nb - int (start e + bytes e) \<le> int (length (reader ?f1))"
        using r Cons.prems(2) by simp
      from Cons.IH [OF l this] r Cons.prems(2) show ?thesis by simp
    qed
  qed
qed



lemma flush_data_writes:
  assumes r: "flush_data f nbytes final = Some (rc, f')"
    and c: "consistent f"
    and m: "effective_nbytes f nbytes \<le> int (buffered f)"
  shows "\<exists>new. applied f' = applied f @ new \<and> chained (bytes_done f) new
           \<and> set new \<subseteq> set (edits f)
           \<and> end_pos (bytes_done f) new \<le> bytes_done f'
           \<and> bytes_done f \<le> bytes_done f'
           \<and> bytes_done f' \<le> bytes_done f + buffered f
           \<and> reader f' = drop (bytes_done f' - bytes_done f) (reader f)
           \<and> output_buffer f'
              = output_buffer f
                  @ replace_ranges (bytes_done f)
                      (take (bytes_done f' - bytes_done f) (reader f)) new"
proof -
  let ?m = "effective_nbytes f nbytes"
  let ?bd = "bytes_done f"
  from c have bl: "buffered f = length (reader f)" by (simp add: consistent_def)
  from r obtain rest f1 nb1 f2 where
    l: "edit_loop final (rev (qsort qcompare (edits f))) f ?m IB_OK = Some (rest, f1, nb1, rc)"
    and cl: "copy_loop (f1\<lparr>edits := rev rest\<rparr>) nb1 = Some f2"
    and f': "f' = (if final then f2\<lparr>output_vio_nbytes := Some (int (bytes_done f2) + offs f2)\<rparr>
                   else f2)"
    by (auto simp: flush_data_eq split: option.splits)
  from edit_loop_writes [OF l] obtain new where
    a: "applied f1 = applied f @ new" and ch: "chained ?bd new"
    and sb: "set new \<subseteq> set (edits f)"
    and b1: "bytes_done f1 = end_pos ?bd new"
    and o1: "output_buffer f1 = output_buffer f
                  @ replace_ranges ?bd (take (bytes_done f1 - ?bd) (reader f)) new"
    by (auto simp: set_qsort)
  from edit_loop_reader [OF l] have ge: "?bd \<le> bytes_done f1"
    and r1: "reader f1 = drop (bytes_done f1 - ?bd) (reader f)" by simp_all
  from m bl have "?m \<le> int (length (reader f))" by simp
  from edit_loop_bound [OF l this] have le1: "bytes_done f1 \<le> ?bd + length (reader f)" .
  define k where "k = (if nb1 \<le> 0 then 0 else nat nb1)"
  from cl have kl: "k \<le> length (reader f1)"
    and f2: "applied f2 = applied f1" "bytes_done f2 = bytes_done f1 + k"
      "reader f2 = drop k (reader f1)" "output_buffer f2 = output_buffer f1 @ take k (reader f1)"
    by (auto simp: copy_loop_eq k_def split: if_splits)
  let ?b2 = "bytes_done f1 + k"
  have p1: "?b2 \<le> ?bd + length (reader f)" using kl le1 ge by (simp add: r1)
  have p2: "reader f2 = drop (?b2 - ?bd) (reader f)"
    using ge by (simp add: f2 r1 add.commute)
  have w: "replace_ranges ?bd (take (?b2 - ?bd) (reader f)) new
           = replace_ranges ?bd (take (bytes_done f1 - ?bd) (reader f)) new
               @ take k (drop (bytes_done f1 - ?bd) (reader f))"
  proof -
    have e: "end_pos ?bd new \<le> bytes_done f1" by (simp add: b1)
    have t: "min (bytes_done f1 - ?bd) (?b2 - ?bd) = bytes_done f1 - ?bd" by simp
    have d: "?b2 - (?bd + (bytes_done f1 - ?bd)) = k" using ge by simp
    show ?thesis
      using replace_ranges_take [OF ch e, of "take (?b2 - ?bd) (reader f)"]
      by (simp add: t d drop_take del: of_nat_add)
  qed
  have p3: "output_buffer f2 = output_buffer f
              @ replace_ranges ?bd (take (?b2 - ?bd) (reader f)) new"
    unfolding f2 o1 w r1 by simp
  have "applied f' = applied f @ new" "bytes_done f' = ?b2"
    "reader f' = reader f2" "output_buffer f' = output_buffer f2"
    using a f2 by (simp_all add: f')
  with ch b1 ge p1 p2 p3 bl sb show ?thesis
    by (intro exI [of _ new]) simp
qed


subsection \<open>The bytes written in a run\<close>






lemma flush_data_frame:
  assumes "flush_data f nbytes final = Some (rc, f')"
  shows "buffering f' = buffering f \<and> buf_limit f' = buf_limit f"
proof -
  from assms obtain rest f1 nb1 f2 where
    l: "edit_loop final (rev (qsort qcompare (edits f))) f (effective_nbytes f nbytes) IB_OK
          = Some (rest, f1, nb1, rc)"
    and cl: "copy_loop (f1\<lparr>edits := rev rest\<rparr>) nb1 = Some f2"
    and f': "f' = (if final then f2\<lparr>output_vio_nbytes := Some (int (bytes_done f2) + offs f2)\<rparr>
                   else f2)"
    by (auto simp: flush_data_eq split: option.splits)
  from cl have "buffering f2 = buffering f1" "buf_limit f2 = buf_limit f1"
    by (auto simp: copy_loop_eq split: if_splits)
  with edit_loop_frame [OF l] show ?thesis by (simp add: f')
qed







subsection \<open>Runs that return\<close>

lemma flush_data_conserves:
  assumes r: "flush_data f nbytes final = Some (rc, f')"
    and c: "consistent f"
    and m: "effective_nbytes f nbytes \<le> int (buffered f)"
  shows "consistent f' \<and> bytes_done f' + buffered f' = bytes_done f + buffered f
         \<and> set (edits f') \<subseteq> set (edits f)"
proof -
  from flush_data_consistent [OF r c] have c': "consistent f'" .
  from flush_data_writes [OF r c m] have ge: "bytes_done f \<le> bytes_done f'"
    and le: "bytes_done f' \<le> bytes_done f + buffered f"
    and rd: "reader f' = drop (bytes_done f' - bytes_done f) (reader f)" by auto
  from c c' rd have "buffered f' = buffered f - (bytes_done f' - bytes_done f)"
    by (simp add: consistent_def)
  with ge le have s: "bytes_done f' + buffered f' = bytes_done f + buffered f" by simp
  from r obtain rest f1 nb1 f2 where
    l: "edit_loop final (rev (qsort qcompare (edits f))) f (effective_nbytes f nbytes) IB_OK
          = Some (rest, f1, nb1, rc)"
    and cl: "copy_loop (f1\<lparr>edits := rev rest\<rparr>) nb1 = Some f2"
    and f': "f' = (if final then f2\<lparr>output_vio_nbytes := Some (int (bytes_done f2) + offs f2)\<rparr>
                   else f2)"
    by (auto simp: flush_data_eq split: option.splits)
  from copy_loop_frame [OF cl] have "edits f' = rev rest" by (simp add: f')
  moreover from edit_loop_suffix [OF l] have "set rest \<subseteq> set (edits f)"
    by (metis set_append set_qsort set_rev sup_ge2)
  ultimately have "set (edits f') \<subseteq> set (edits f)" by simp
  with c' s show ?thesis by simp
qed

lemma buffer_data_chunk_returns:
  assumes c: "consistent f"
    and mode: "buffering f \<noteq> IOBUF_DISCARD"
    and reach: "\<forall>e\<in>set (edits f). start e
        \<le> bytes_done f + buffered f
            + (if buffering f = IOBUF_BUFFER_FLUSHALL then 0 else length (take n rd))"
  shows "\<exists>rc f'. buffer_data_chunk f rd (int n) = Some (rc, f') \<and> consistent f'
           \<and> bytes_done f' + buffered f' = bytes_done f + buffered f + length (take n rd)
           \<and> set (edits f') \<subseteq> set (edits f) \<and> buffering f' = buffering f"
proof -
  define chunk where "chunk = take n rd"
  have lc: "min n (length rd) = length chunk" by (simp add: chunk_def min.commute)
  have fl: "\<exists>rc f'. flush_data g k False = Some (rc, f') \<and> consistent f'
           \<and> bytes_done f' + buffered f' = bytes_done g + buffered g
           \<and> set (edits f') \<subseteq> set (edits g) \<and> buffering f' = buffering g
           \<and> buf_limit f' = buf_limit g"
    if cg: "consistent g" and m: "effective_nbytes g k \<le> int (buffered g)"
      and rg: "\<forall>e\<in>set (edits g). start e \<le> bytes_done g + buffered g" for g k
  proof -
    from flush_data_returns [OF cg m, of False] rg obtain rc f' where
      r: "flush_data g k False = Some (rc, f')" by blast
    from flush_data_conserves [OF r cg m] flush_data_frame [OF r] r show ?thesis by simp
  qed
  have s1: "\<exists>rc1 f1. (if buffering f = IOBUF_BUFFER_FLUSHALL
                          \<and> int (buffered f) + int n > int (buf_limit f)
          then flush_data f (- 1) False else Some (IB_OK, f)) = Some (rc1, f1)
       \<and> consistent f1 \<and> bytes_done f1 + buffered f1 = bytes_done f + buffered f
       \<and> set (edits f1) \<subseteq> set (edits f) \<and> buffering f1 = buffering f
       \<and> buf_limit f1 = buf_limit f"
  proof (cases "buffering f = IOBUF_BUFFER_FLUSHALL \<and> int (buffered f) + int n > int (buf_limit f)")
    case True
    have m: "effective_nbytes f (- 1) \<le> int (buffered f)" by (simp add: effective_nbytes_def)
    have "\<forall>e\<in>set (edits f). start e \<le> bytes_done f + buffered f"
      using reach True by simp
    from fl [OF c m this] True show ?thesis by simp
  next
    case False
    with c show ?thesis by auto
  qed
  then obtain rc1 f1 where
    e1: "(if buffering f = IOBUF_BUFFER_FLUSHALL \<and> int (buffered f) + int n > int (buf_limit f)
          then flush_data f (- 1) False else Some (IB_OK, f)) = Some (rc1, f1)"
    and c1: "consistent f1" and b1: "bytes_done f1 + buffered f1 = bytes_done f + buffered f"
    and ed1: "set (edits f1) \<subseteq> set (edits f)" and m1: "buffering f1 = buffering f"
    and l1: "buf_limit f1 = buf_limit f"
    by blast
  define f2 where "f2 = f1\<lparr>reader := reader f1 @ chunk,
                            buffered := buffered f1 + length chunk\<rparr>"
  have c2: "consistent f2" using c1 by (simp add: f2_def consistent_def)
  have b2: "buffering f2 = buffering f1" "buf_limit f2 = buf_limit f1"
    "buffered f2 = buffered f1 + length chunk" "bytes_done f2 = bytes_done f1"
    "edits f2 = edits f1"
    by (simp_all add: f2_def)
  have bd: "buffer_data_chunk f rd (int n) =
     (if buffering f2 = IOBUF_NOBUF then flush_data f2 (- 1) False
      else if buffering f2 = IOBUF_BUFFER_FLUSHPART \<and> buffered f2 > buf_limit f2
      then flush_data f2 (int (buffered f2) - int (buf_limit f2)) False
      else Some (rc1, f2))"
    using mode unfolding buffer_data_chunk_def e1
    by (simp add: TSIOBufferCopy_def Let_def lc chunk_def [symmetric] f2_def [symmetric] b2)
  have "\<exists>rc f'. buffer_data_chunk f rd (int n) = Some (rc, f') \<and> consistent f'
           \<and> bytes_done f' + buffered f' = bytes_done f2 + buffered f2
           \<and> set (edits f') \<subseteq> set (edits f2) \<and> buffering f' = buffering f2"
  proof (cases "buffering f2 = IOBUF_NOBUF \<or> buffering f2 = IOBUF_BUFFER_FLUSHPART")
    case True
    then have nfa: "buffering f \<noteq> IOBUF_BUFFER_FLUSHALL" using m1 by (auto simp: b2)
    have r2: "\<forall>e\<in>set (edits f2). start e \<le> bytes_done f2 + buffered f2"
    proof
      fix e assume "e \<in> set (edits f2)"
      with ed1 have "e \<in> set (edits f)" by (auto simp: b2)
      with reach nfa have "start e \<le> bytes_done f + buffered f + length chunk"
        by (simp add: chunk_def)
      then show "start e \<le> bytes_done f2 + buffered f2" using b1 by (simp add: b2)
    qed
    show ?thesis
    proof (cases "buffering f2 = IOBUF_NOBUF")
      case nb: True
      have "effective_nbytes f2 (- 1) \<le> int (buffered f2)" by (simp add: effective_nbytes_def)
      from fl [OF c2 this r2] nb show ?thesis unfolding bd by auto
    next
      case nn: False
      show ?thesis
      proof (cases "buffering f2 = IOBUF_BUFFER_FLUSHPART \<and> buffered f2 > buf_limit f2")
        case tp: True
        then have "effective_nbytes f2 (int (buffered f2) - int (buf_limit f2))
                   \<le> int (buffered f2)"
          by (auto simp: effective_nbytes_def)
        from fl [OF c2 this r2] tp nn show ?thesis unfolding bd by auto
      next
        case False
        with nn c2 show ?thesis unfolding bd by auto
      qed
    qed
  next
    case False
    with c2 show ?thesis unfolding bd by auto
  qed
  then show ?thesis using b1 ed1 m1 by (auto simp: b2 chunk_def)
qed

lemma in_reach_pending:
  assumes "in_reach mode ib_notify_body off [] blocks"
    and "\<forall>e\<in>set pending. start e \<le> off"
  shows "in_reach mode ib_notify_body off pending blocks"
proof (cases blocks)
  case Nil
  then show ?thesis by simp
next
  case (Cons b bs)
  have "start e \<le> off + (if mode = IOBUF_BUFFER_FLUSHALL then 0 else length b)"
    if "e \<in> set pending" for e
  proof -
    from that assms(2) have "start e \<le> off" by blast
    then show ?thesis by simp
  qed
  with assms(1) show ?thesis unfolding Cons by auto
qed

lemma data_loop_returns:
  assumes "consistent (fctx st)"
    and "buffering (fctx st) = IOBUF_DISCARD
         \<or> in_reach (buffering (fctx st)) ib_notify_body
              (bytes_done (fctx st) + buffered (fctx st)) (edits (fctx st)) blocks"
  shows "\<exists>st'. data_loop ib_notify_body st blocks = Some st' \<and> consistent (fctx st')"
  using assms
proof (induction blocks arbitrary: st)
  case Nil
  then show ?case by simp
next
  case (Cons x xs)
  obtain nrc added where nb: "ib_notify_body x = (nrc, added)" by (cases "ib_notify_body x")
  let ?G = "fctx st"
  let ?H = "?G\<lparr>edits := edits ?G @ added\<rparr>"
  let ?OFF = "bytes_done ?G + buffered ?G"
  have tk: "take (length x) (concat (x # xs)) = x" by simp
  have c0: "consistent ?H" using Cons.prems(1) by (simp add: consistent_def)
  have "\<exists>rc f1. buffer_data_chunk ?H (concat (x # xs)) (int (length x)) = Some (rc, f1)
          \<and> consistent f1
          \<and> (buffering f1 = IOBUF_DISCARD
              \<or> in_reach (buffering f1) ib_notify_body (bytes_done f1 + buffered f1)
                   (edits f1) xs)"
  proof (cases "buffering ?G = IOBUF_DISCARD")
    case True
    then have d0: "buffering ?H = IOBUF_DISCARD" by simp
    show ?thesis
      unfolding buffer_data_chunk_discard [OF d0] using c0 True
      by (auto simp: consistent_def)
  next
    case False
    from False Cons.prems(2) nb
    have ra: "\<forall>e\<in>set (edits ?G @ added). start e
                 \<le> ?OFF + (if buffering ?G = IOBUF_BUFFER_FLUSHALL then 0 else length x)"
      by simp
    from False Cons.prems(2) nb
    have ir: "in_reach (buffering ?G) ib_notify_body (?OFF + length x) [] xs" by simp
    have m0: "buffering ?H \<noteq> IOBUF_DISCARD" using False by simp
    have r0: "\<forall>e\<in>set (edits ?H). start e
              \<le> bytes_done ?H + buffered ?H
                  + (if buffering ?H = IOBUF_BUFFER_FLUSHALL then 0
                     else length (take (length x) (concat (x # xs))))"
      unfolding tk using ra by simp
    from buffer_data_chunk_returns [OF c0 m0 r0] obtain rc f1 where
      bc: "buffer_data_chunk ?H (concat (x # xs)) (int (length x)) = Some (rc, f1)"
      and c1: "consistent f1"
      and s1: "bytes_done f1 + buffered f1 = ?OFF + length x"
      and e1: "set (edits f1) \<subseteq> set (edits ?H)" and m1: "buffering f1 = buffering ?G"
      unfolding tk by auto
    have q4: "\<forall>e\<in>set (edits f1). start e \<le> bytes_done f1 + buffered f1"
    proof
      fix e assume "e \<in> set (edits f1)"
      with e1 have "e \<in> set (edits ?G @ added)" by auto
      with ra have "start e
           \<le> ?OFF + (if buffering ?G = IOBUF_BUFFER_FLUSHALL then 0 else length x)" by blast
      then have "start e \<le> ?OFF + length x" by (simp split: if_splits)
      then show "start e \<le> bytes_done f1 + buffered f1" by (simp add: s1)
    qed
    have "in_reach (buffering f1) ib_notify_body (bytes_done f1 + buffered f1) (edits f1) xs"
    proof (rule in_reach_pending)
      show "in_reach (buffering f1) ib_notify_body (bytes_done f1 + buffered f1) [] xs"
        using ir by (simp only: s1 m1)
      show "\<forall>e\<in>set (edits f1). start e \<le> bytes_done f1 + buffered f1" by (rule q4)
    qed
    with bc c1 show ?thesis by blast
  qed
  then obtain rc f1 where
    bc: "buffer_data_chunk ?H (concat (x # xs)) (int (length x)) = Some (rc, f1)"
    and c1: "consistent f1"
    and h1: "buffering f1 = IOBUF_DISCARD
              \<or> in_reach (buffering f1) ib_notify_body (bytes_done f1 + buffered f1)
                   (edits f1) xs"
    by blast
  define st1 where "st1 = st\<lparr>fctx := f1, input_ndone := input_ndone st + int (length x),
     errlog := errlog st @ (if nrc \<noteq> IB_OK then [''Error %d notifying body data.''] else [])
               @ chunk_status_log rc\<rparr>"
  have pb: "process_block ib_notify_body st (concat (x # xs)) (length x)
            = Some (st1, TSIOBufferReaderConsume (concat (x # xs)) (length x))"
    using nb bc by (simp add: process_block_def st1_def Let_def)
  have q: "consistent (fctx st1)"
    "buffering (fctx st1) = IOBUF_DISCARD
       \<or> in_reach (buffering (fctx st1)) ib_notify_body
            (bytes_done (fctx st1) + buffered (fctx st1)) (edits (fctx st1)) xs"
    using c1 h1 by (simp_all add: st1_def)
  from Cons.IH [OF q] obtain st' where
    "data_loop ib_notify_body st1 xs = Some st'" "consistent (fctx st')" by blast
  with pb show ?case by (simp del: concat.simps)
qed



section \<open>The claims about the body filter\<close>





text \<open>
  C2, as amended.  For every sequence of body chunks, when the edit list stays
  empty: in every buffering mode except \<open>IOBUF_DISCARD\<close> the bytes copied to the
  output buffer over all flushes, the final one included, are what was buffered
  at the start followed by the bytes of the chunks, in order, and nothing stays
  behind in the input buffer.  In the mode \<open>IOBUF_DISCARD\<close> no byte of a chunk
  is copied to the output buffer: \<open>buffer_data_chunk\<close> drops the chunk together
  with what the input buffer holds and leaves the output buffer as it is.  Bytes
  that were buffered before the mode became \<open>IOBUF_DISCARD\<close> are written by the
  final flush if the body ends before another chunk arrives, and dropped
  otherwise.
\<close>

theorem C2_byte_conservation:
  assumes "consistent (fctx st)"
    and "edits (fctx st) = []"
    and "\<forall>b. snd (ib_notify_body b) = []"
  shows "(buffering (fctx st) \<noteq> IOBUF_DISCARD \<longrightarrow>
           (\<exists>st'. process_data ib_notify_body st blocks = Some st'
              \<and> output_buffer (fctx st')
                 = output_buffer (fctx st) @ reader (fctx st) @ concat blocks
              \<and> reader (fctx st') = []))
         \<and> (buffering (fctx st) = IOBUF_DISCARD \<longrightarrow>
           (\<exists>f'. buffer_data_chunk (fctx st) rd n = Some (IB_OK, f')
              \<and> output_buffer f' = output_buffer (fctx st)
              \<and> reader f' = [] \<and> buffered f' = 0)
           \<and> (\<exists>st'. process_data ib_notify_body st blocks = Some st'
              \<and> output_buffer (fctx st')
                 = output_buffer (fctx st) @ (if blocks = [] then reader (fctx st) else [])
              \<and> reader (fctx st') = []))"
proof (intro conjI impI)
  assume nd: "buffering (fctx st) \<noteq> IOBUF_DISCARD"
  then have "passes_on (fctx st)" using assms(1-2) by (simp add: passes_on_def)
  from data_loop_no_edits [OF this assms(3), of blocks] obtain st1 where
    d: "data_loop ib_notify_body st blocks = Some st1" and p: "passes_on (fctx st1)"
    and o: "output_buffer (fctx st1) @ reader (fctx st1)
              = output_buffer (fctx st) @ reader (fctx st) @ concat blocks"
    by blast
  from p have "edits (fctx st1) = []" "buffered (fctx st1) = length (reader (fctx st1))"
    by (simp_all add: passes_on_def consistent_def)
  then show "\<exists>st'. process_data ib_notify_body st blocks = Some st'
              \<and> output_buffer (fctx st')
                 = output_buffer (fctx st) @ reader (fctx st) @ concat blocks
              \<and> reader (fctx st') = []"
    using d o
    by (simp add: process_data_def flush_data_no_edits effective_nbytes_def Let_def)
next
  assume di: "buffering (fctx st) = IOBUF_DISCARD"
  show "\<exists>f'. buffer_data_chunk (fctx st) rd n = Some (IB_OK, f')
              \<and> output_buffer f' = output_buffer (fctx st)
              \<and> reader f' = [] \<and> buffered f' = 0"
    using assms(1) by (auto simp: buffer_data_chunk_discard [OF di] consistent_def)
next
  assume di: "buffering (fctx st) = IOBUF_DISCARD"
  from data_loop_discard [OF di assms, of blocks] obtain st1 where
    d: "data_loop ib_notify_body st blocks = Some st1"
    and p: "consistent (fctx st1)" "edits (fctx st1) = []"
      "output_buffer (fctx st1) = output_buffer (fctx st)"
      "reader (fctx st1) = (if blocks = [] then reader (fctx st) else [])"
    by blast
  from p(1) have "buffered (fctx st1) = length (reader (fctx st1))" by (simp add: consistent_def)
  with p show "\<exists>st'. process_data ib_notify_body st blocks = Some st'
              \<and> output_buffer (fctx st')
                 = output_buffer (fctx st) @ (if blocks = [] then reader (fctx st) else [])
              \<and> reader (fctx st') = []"
    using d
    by (simp add: process_data_def flush_data_no_edits effective_nbytes_def Let_def)
qed

theorem C2_byte_conservation_witness:
  "(\<exists>st'. process_data no_edits (fresh_txn IOBUF_BUFFER_FLUSHPART 3) [''He'', ''llo'', ''World'']
           = Some st'
         \<and> output_buffer (fctx st') = ''HelloWorld'')
   \<and> (\<exists>st'. process_data no_edits (fresh_txn IOBUF_DISCARD 0) [''He'', ''llo''] = Some st'
         \<and> output_buffer (fctx st') = [])
   \<and> (\<exists>st'. process_data no_edits switched_txn [''World''] = Some st'
         \<and> output_buffer (fctx st') = [])
   \<and> (\<exists>st'. process_data no_edits switched_txn [] = Some st'
         \<and> output_buffer (fctx st') = ''Hello'')"
  using C2_byte_conservation [where st = "fresh_txn IOBUF_BUFFER_FLUSHPART 3" and ib_notify_body = no_edits
        and blocks = "[''He'', ''llo'', ''World'']" and rd = "[]" and n = 0]
    C2_byte_conservation [where st = "fresh_txn IOBUF_DISCARD 0" and ib_notify_body = no_edits
        and blocks = "[''He'', ''llo'']" and rd = "[]" and n = 0]
    C2_byte_conservation [where st = switched_txn and ib_notify_body = no_edits
        and blocks = "[''World'']" and rd = "[]" and n = 0]
    C2_byte_conservation [where st = switched_txn and ib_notify_body = no_edits
        and blocks = "[]" and rd = "[]" and n = 0]
  by (auto simp: fresh_txn_def fresh_ctx_def no_edits_def consistent_def switched_txn_def)

text \<open>
  C2 as it is stated includes the mode \<open>IOBUF_DISCARD\<close>, in which the chunks are
  dropped: nothing reaches the output buffer.
\<close>

theorem C2_counterexample:
  "process_data no_edits (fresh_txn IOBUF_DISCARD 0) [''He'', ''llo'']
     = Some \<lparr>fctx = \<lparr>output_buffer = [], output_vio_nbytes = Some 0,
                      buffering = IOBUF_DISCARD, reader = [], buf_limit = 0, buffered = 0,
                      edits = [], offs = 0, bytes_done = 0, applied = [], dropped = []\<rparr>,
             input_ndone = 5, errlog = []\<rparr>"
  by code_simp

text \<open>
  C3.  An edit that starts beyond the buffered bytes makes \<open>flush_data\<close> set
  \<open>nbytes\<close> to more than the reader holds.  The copy loop then gets 0 from
  \<open>TSIOBufferCopy\<close> once the reader is empty, and its assertion fails: the call
  does not return \<open>IB_EAGAIN\<close>, it does not return at all.
\<close>

theorem C3_edit_beyond_buffer_aborts:
  "flush_data (future_edit_ctx\<lparr>reader := ''Hello'', buffered := 5\<rparr>) (- 1) False = None
   \<and> buffer_data_chunk future_edit_ctx ''Hello'' 5 = None"
  by code_simp

text \<open>
  C4.  Two runs in which an edit is abandoned and nothing is logged.  In the
  first, the chunk \<open>World\<close> arrives while one edit starts in the bytes already
  written and another ends beyond the chunk: the flush returns \<open>IB_EAGAIN\<close>, for
  which \<open>process_data\<close> logs nothing.  In the second, the body ends while an edit
  ends beyond it: the final flush returns \<open>IB_EBADVAL\<close>, which \<open>process_data\<close>
  does not look at.
\<close>

theorem C4_invalid_edit_not_logged:
  "process_block no_edits overlap_then_straddle_txn ''World'' 5
     = Some (\<lparr>fctx =
                \<lparr>output_buffer = ''HelloWor'', output_vio_nbytes = None,
                 buffering = IOBUF_NOBUF, reader = ''ld'', buf_limit = 0,
                 buffered = 2, edits = [\<lparr>start = 8, bytes = 4, repl = ''y''\<rparr>],
                 offs = 0, bytes_done = 8, applied = [],
                 dropped = [\<lparr>start = 2, bytes = 1, repl = ''x''\<rparr>]\<rparr>,
              input_ndone = 10, errlog = []\<rparr>, [])
   \<and> flush_data (fctx beyond_end_txn) (- 1) True
     = Some (IB_EBADVAL,
         \<lparr>output_buffer = ''Hello'', output_vio_nbytes = Some 5,
          buffering = IOBUF_BUFFER_ALL, reader = [], buf_limit = 0,
          buffered = 0, edits = [], offs = 0, bytes_done = 5, applied = [],
          dropped = [\<lparr>start = 3, bytes = 4, repl = ''p!''\<rparr>]\<rparr>)
   \<and> process_data no_edits beyond_end_txn []
     = Some \<lparr>fctx =
               \<lparr>output_buffer = ''Hello'', output_vio_nbytes = Some 5,
                buffering = IOBUF_BUFFER_ALL, reader = [], buf_limit = 0,
                buffered = 0, edits = [], offs = 0, bytes_done = 5, applied = [],
                dropped = [\<lparr>start = 3, bytes = 4, repl = ''p!''\<rparr>]\<rparr>,
             input_ndone = 5, errlog = []\<rparr>"
  by code_simp

text \<open>
  C5.  At every point \<open>offs\<close> is the sum of replacement length minus deleted
  length over the edits applied so far, and the number of bytes written to the
  output buffer is \<open>bytes_done + offs\<close>.  From a context in which this
  bookkeeping holds (\<open>accounted\<close>, as in a fresh context) and \<open>buffered\<close> is the
  number of bytes in the input buffer: it holds after every flush that returns,
  and a flush with \<open>last\<close> unset does return when every waiting edit starts
  within the buffered bytes; a flush of the buffer with \<open>last\<close> set always
  returns, and commits \<open>bytes_done + offs\<close> to the output VIO, which is the
  number of bytes written to the output buffer; and after any sequence of blocks
  that the loop of \<open>process_data\<close> gets through, the bookkeeping holds, the
  final flush returns, and the size it commits is the number of bytes written.
  The loop gets through the blocks in the mode \<open>IOBUF_DISCARD\<close>, and in the
  other modes when every edit starts within the bytes that are buffered at the
  first flush after it has been added (\<open>in_reach\<close>).
\<close>

theorem C5_offs_and_final_size:
  assumes a: "accounted (fctx st)" and c: "consistent (fctx st)"
  shows "(\<forall>nbytes rc f'. flush_data (fctx st) nbytes False = Some (rc, f') \<longrightarrow>
            offs f' = sum_list (map edit_delta (applied f'))
            \<and> int (length (output_buffer f')) = int (bytes_done f') + offs f')
         \<and> (\<forall>nbytes. effective_nbytes (fctx st) nbytes \<le> int (buffered (fctx st))
               \<and> (\<forall>e\<in>set (edits (fctx st)).
                     start e \<le> bytes_done (fctx st) + buffered (fctx st)) \<longrightarrow>
            (\<exists>rc f'. flush_data (fctx st) nbytes False = Some (rc, f')))
         \<and> (\<exists>rc f'. flush_data (fctx st) (- 1) True = Some (rc, f')
            \<and> offs f' = sum_list (map edit_delta (applied f'))
            \<and> output_vio_nbytes f' = Some (int (bytes_done f') + offs f')
            \<and> output_vio_nbytes f' = Some (int (length (output_buffer f'))))
         \<and> (\<forall>st1. data_loop ib_notify_body st blocks = Some st1 \<longrightarrow>
            offs (fctx st1) = sum_list (map edit_delta (applied (fctx st1)))
            \<and> int (length (output_buffer (fctx st1)))
               = int (bytes_done (fctx st1)) + offs (fctx st1)
            \<and> (\<exists>st'. process_data ib_notify_body st blocks = Some st'
                 \<and> offs (fctx st') = sum_list (map edit_delta (applied (fctx st')))
                 \<and> output_vio_nbytes (fctx st')
                    = Some (int (bytes_done (fctx st')) + offs (fctx st'))
                 \<and> output_vio_nbytes (fctx st')
                    = Some (int (length (output_buffer (fctx st'))))))
         \<and> (buffering (fctx st) = IOBUF_DISCARD
              \<or> in_reach (buffering (fctx st)) ib_notify_body
                   (bytes_done (fctx st) + buffered (fctx st)) (edits (fctx st)) blocks
            \<longrightarrow> (\<exists>st1. data_loop ib_notify_body st blocks = Some st1))"
proof -
  have fin: "\<exists>rc f'. flush_data f (- 1) True = Some (rc, f')
            \<and> offs f' = sum_list (map edit_delta (applied f'))
            \<and> output_vio_nbytes f' = Some (int (bytes_done f') + offs f')
            \<and> output_vio_nbytes f' = Some (int (length (output_buffer f')))"
    if af: "accounted f" and cf: "consistent f" for f
  proof -
    from final_flush_returns [OF cf] obtain rc f' where
      r: "flush_data f (- 1) True = Some (rc, f')" by blast
    from flush_data_accounted [OF r af] have "accounted f'" .
    moreover from r have "output_vio_nbytes f' = Some (int (bytes_done f') + offs f')"
      by (rule flush_data_commit)
    ultimately show ?thesis using r by (auto simp: accounted_def)
  qed
  have p1: "\<forall>nbytes rc f'. flush_data (fctx st) nbytes False = Some (rc, f') \<longrightarrow>
            offs f' = sum_list (map edit_delta (applied f'))
            \<and> int (length (output_buffer f')) = int (bytes_done f') + offs f'"
    using flush_data_accounted [OF _ a] by (auto simp: accounted_def)
  have p2: "\<forall>nbytes. effective_nbytes (fctx st) nbytes \<le> int (buffered (fctx st))
               \<and> (\<forall>e\<in>set (edits (fctx st)).
                     start e \<le> bytes_done (fctx st) + buffered (fctx st)) \<longrightarrow>
            (\<exists>rc f'. flush_data (fctx st) nbytes False = Some (rc, f'))"
    using flush_data_returns [OF c, of _ False] by blast
  have p3: "\<forall>st1. data_loop ib_notify_body st blocks = Some st1 \<longrightarrow>
            offs (fctx st1) = sum_list (map edit_delta (applied (fctx st1)))
            \<and> int (length (output_buffer (fctx st1)))
               = int (bytes_done (fctx st1)) + offs (fctx st1)
            \<and> (\<exists>st'. process_data ib_notify_body st blocks = Some st'
                 \<and> offs (fctx st') = sum_list (map edit_delta (applied (fctx st')))
                 \<and> output_vio_nbytes (fctx st')
                    = Some (int (bytes_done (fctx st')) + offs (fctx st'))
                 \<and> output_vio_nbytes (fctx st')
                    = Some (int (length (output_buffer (fctx st')))))"
  proof (intro allI impI)
    fix st1 assume dl: "data_loop ib_notify_body st blocks = Some st1"
    from data_loop_invariant [OF dl a c]
    have a1: "accounted (fctx st1)" and c1: "consistent (fctx st1)" by simp_all
    from fin [OF a1 c1] obtain rc f' where
      r: "flush_data (fctx st1) (- 1) True = Some (rc, f')"
      and q: "offs f' = sum_list (map edit_delta (applied f'))"
        "output_vio_nbytes f' = Some (int (bytes_done f') + offs f')"
        "output_vio_nbytes f' = Some (int (length (output_buffer f')))"
      by blast
    have "process_data ib_notify_body st blocks = Some (st1\<lparr>fctx := f'\<rparr>)"
      using dl r by (simp add: process_data_def)
    with q have "\<exists>st'. process_data ib_notify_body st blocks = Some st'
                 \<and> offs (fctx st') = sum_list (map edit_delta (applied (fctx st')))
                 \<and> output_vio_nbytes (fctx st')
                    = Some (int (bytes_done (fctx st')) + offs (fctx st'))
                 \<and> output_vio_nbytes (fctx st')
                    = Some (int (length (output_buffer (fctx st'))))"
      by simp
    with a1 show "offs (fctx st1) = sum_list (map edit_delta (applied (fctx st1)))
            \<and> int (length (output_buffer (fctx st1)))
               = int (bytes_done (fctx st1)) + offs (fctx st1)
            \<and> (\<exists>st'. process_data ib_notify_body st blocks = Some st'
                 \<and> offs (fctx st') = sum_list (map edit_delta (applied (fctx st')))
                 \<and> output_vio_nbytes (fctx st')
                    = Some (int (bytes_done (fctx st')) + offs (fctx st'))
                 \<and> output_vio_nbytes (fctx st')
                    = Some (int (length (output_buffer (fctx st')))))"
      by (simp add: accounted_def)
  qed
  have p4: "buffering (fctx st) = IOBUF_DISCARD
              \<or> in_reach (buffering (fctx st)) ib_notify_body
                   (bytes_done (fctx st) + buffered (fctx st)) (edits (fctx st)) blocks
            \<longrightarrow> (\<exists>st1. data_loop ib_notify_body st blocks = Some st1)"
    using data_loop_returns [OF c, of ib_notify_body blocks] by blast
  from p1 p2 fin [OF a c] p3 p4 show ?thesis by blast
qed

theorem C5_offs_and_final_size_witness:
  "accounted (fctx (fresh_txn IOBUF_NOBUF 0)) \<and> consistent (fctx (fresh_txn IOBUF_NOBUF 0))
   \<and> data_loop two_edits_in_time (fresh_txn IOBUF_NOBUF 0) [''Hello'', ''World'']
     = Some \<lparr>fctx = \<lparr>output_buffer = ''Help!rl'', output_vio_nbytes = None,
                      buffering = IOBUF_NOBUF, reader = [], buf_limit = 0,
                      buffered = 0, edits = [], offs = - 3, bytes_done = 10,
                      applied = [\<lparr>start = 3, bytes = 4, repl = ''p!''\<rparr>,
                                 \<lparr>start = 9, bytes = 1, repl = []\<rparr>],
                      dropped = []\<rparr>,
             input_ndone = 10, errlog = []\<rparr>
   \<and> (\<exists>st'. process_data two_edits_in_time (fresh_txn IOBUF_NOBUF 0) [''Hello'', ''World'']
               = Some st'
        \<and> offs (fctx st') = sum_list (map edit_delta (applied (fctx st')))
        \<and> output_vio_nbytes (fctx st') = Some (int (bytes_done (fctx st')) + offs (fctx st'))
        \<and> output_vio_nbytes (fctx st') = Some (int (length (output_buffer (fctx st')))))
   \<and> (\<exists>rc f'. flush_data (fctx (fresh_txn IOBUF_NOBUF 0)) (- 1) True = Some (rc, f')
        \<and> output_vio_nbytes f' = Some (int (length (output_buffer f'))))"
proof -
  let ?st = "fresh_txn IOBUF_NOBUF 0"
  have a: "accounted (fctx ?st)" and c: "consistent (fctx ?st)"
    by (simp_all add: accounted_def consistent_def fresh_txn_def fresh_ctx_def)
  have d: "data_loop two_edits_in_time ?st [''Hello'', ''World''] = Some
     \<lparr>fctx = \<lparr>output_buffer = ''Help!rl'', output_vio_nbytes = None,
               buffering = IOBUF_NOBUF, reader = [], buf_limit = 0,
               buffered = 0, edits = [], offs = - 3, bytes_done = 10,
               applied = [\<lparr>start = 3, bytes = 4, repl = ''p!''\<rparr>,
                          \<lparr>start = 9, bytes = 1, repl = []\<rparr>],
               dropped = []\<rparr>,
      input_ndone = 10, errlog = []\<rparr>"
    by code_simp
  from C5_offs_and_final_size [OF a c, of two_edits_in_time "[''Hello'', ''World'']"]
  have "\<exists>st'. process_data two_edits_in_time ?st [''Hello'', ''World''] = Some st'
        \<and> offs (fctx st') = sum_list (map edit_delta (applied (fctx st')))
        \<and> output_vio_nbytes (fctx st') = Some (int (bytes_done (fctx st')) + offs (fctx st'))
        \<and> output_vio_nbytes (fctx st') = Some (int (length (output_buffer (fctx st'))))"
    and "\<exists>rc f'. flush_data (fctx ?st) (- 1) True = Some (rc, f')
        \<and> output_vio_nbytes f' = Some (int (length (output_buffer f')))"
    unfolding d by blast+
  with a c d show ?thesis by blast
qed

text \<open>
  C6, as amended.  In the mode \<open>IOBUF_BUFFER_FLUSHALL\<close>, when \<open>buffered + nbytes\<close>
  exceeds \<open>buf_limit\<close> and every waiting edit that starts at or after
  \<open>bytes_done\<close> ends within the buffered bytes, all of the buffer is flushed
  before the chunk is copied in: the buffered bytes are written to the output
  buffer, with the ranges of the edits that the flush applies replaced, and
  afterwards the input buffer holds the chunk and nothing else.  In the mode
  \<open>IOBUF_BUFFER_FLUSHPART\<close>, when \<open>buffered\<close> exceeds \<open>buf_limit\<close> after the chunk
  has been copied and every waiting edit that starts at or after \<open>bytes_done\<close>
  ends within the bytes in excess, exactly \<open>buffered - buf_limit\<close> bytes are
  flushed in the same way and \<open>buf_limit\<close> bytes stay in the input buffer.  The
  edits applied are edits of the list, each starting at or after the end of the
  one before it, and no edit stays in the list; without edits the bytes are
  written as they are.
\<close>

theorem C6_flush_on_limit:
  "(buffering f = IOBUF_BUFFER_FLUSHALL \<and> consistent f
      \<and> int (buffered f) + int n > int (buf_limit f)
      \<and> (\<forall>e\<in>set (edits f). bytes_done f \<le> start e
             \<longrightarrow> start e + bytes e \<le> bytes_done f + buffered f)
    \<longrightarrow> (\<exists>rc f' new. buffer_data_chunk f rd (int n) = Some (rc, f')
           \<and> bytes_done f' = bytes_done f + buffered f
           \<and> applied f' = applied f @ new \<and> set new \<subseteq> set (edits f)
           \<and> chained (bytes_done f) new \<and> edits f' = []
           \<and> output_buffer f'
              = output_buffer f @ replace_ranges (bytes_done f) (reader f) new
           \<and> reader f' = take n rd
           \<and> buffered f' = length (take n rd)))
   \<and> (buffering f = IOBUF_BUFFER_FLUSHPART \<and> consistent f
      \<and> buffered f + length (take n rd) > buf_limit f
      \<and> (\<forall>e\<in>set (edits f). bytes_done f \<le> start e
             \<longrightarrow> start e + bytes e
                   \<le> bytes_done f + (buffered f + length (take n rd) - buf_limit f))
    \<longrightarrow> (\<exists>rc f' new. buffer_data_chunk f rd (int n) = Some (rc, f')
           \<and> bytes_done f' = bytes_done f + (buffered f + length (take n rd) - buf_limit f)
           \<and> applied f' = applied f @ new \<and> set new \<subseteq> set (edits f)
           \<and> chained (bytes_done f) new \<and> edits f' = []
           \<and> output_buffer f'
              = output_buffer f
                  @ replace_ranges (bytes_done f)
                      (take (buffered f + length (take n rd) - buf_limit f)
                         (reader f @ take n rd)) new
           \<and> reader f' = drop (buffered f + length (take n rd) - buf_limit f)
                            (reader f @ take n rd)
           \<and> buffered f' = buf_limit f
           \<and> length (reader f') = buf_limit f))"
proof (intro conjI impI)
  assume a: "buffering f = IOBUF_BUFFER_FLUSHALL \<and> consistent f
      \<and> int (buffered f) + int n > int (buf_limit f)
      \<and> (\<forall>e\<in>set (edits f). bytes_done f \<le> start e
             \<longrightarrow> start e + bytes e \<le> bytes_done f + buffered f)"
  then have mode: "buffering f = IOBUF_BUFFER_FLUSHALL" and c: "consistent f"
    and over: "int (buffered f) + int n > int (buf_limit f)" by simp_all
  from c have bl: "buffered f = length (reader f)" by (simp add: consistent_def)
  have eff: "effective_nbytes f (- 1) = int (buffered f)" by (simp add: effective_nbytes_def)
  have m: "effective_nbytes f (- 1) \<le> int (buffered f)" by (simp add: eff)
  have "int (start e + bytes e) \<le> int (bytes_done f) + effective_nbytes f (- 1)"
    if "e \<in> set (edits f)" and "bytes_done f \<le> start e" for e
  proof -
    from a that have "start e + bytes e \<le> bytes_done f + buffered f" by blast
    then show ?thesis unfolding eff by linarith
  qed
  then have "False \<or> (\<forall>e\<in>set (edits f). bytes_done f \<le> start e \<longrightarrow>
          int (start e + bytes e) \<le> int (bytes_done f) + effective_nbytes f (- 1))"
    by blast
  from flush_data_whole [OF c _ _ this] obtain rc f1 where
    fl: "flush_data f (- 1) False = Some (rc, f1)"
    and p: "reader f1 = drop (buffered f) (reader f)" "buffered f1 = buffered f - buffered f"
      "bytes_done f1 = bytes_done f + buffered f" "buffering f1 = buffering f"
      "edits f1 = []"
    unfolding eff by auto
  from flush_data_writes [OF fl c m] obtain new where
    w: "applied f1 = applied f @ new" "set new \<subseteq> set (edits f)"
      "output_buffer f1 = output_buffer f
         @ replace_ranges (bytes_done f) (take (bytes_done f1 - bytes_done f) (reader f)) new"
      "chained (bytes_done f) new"
    by blast
  have o: "output_buffer f1 = output_buffer f @ replace_ranges (bytes_done f) (reader f) new"
    using w(3) by (simp add: p(3) bl)
  from c have "reader f1 = []" using p(1) by (simp add: consistent_def)
  with fl p mode over w(1,2,4) o
  show "\<exists>rc f' new. buffer_data_chunk f rd (int n) = Some (rc, f')
           \<and> bytes_done f' = bytes_done f + buffered f
           \<and> applied f' = applied f @ new \<and> set new \<subseteq> set (edits f)
           \<and> chained (bytes_done f) new \<and> edits f' = []
           \<and> output_buffer f'
              = output_buffer f @ replace_ranges (bytes_done f) (reader f) new
           \<and> reader f' = take n rd
           \<and> buffered f' = length (take n rd)"
    by (simp add: buffer_data_chunk_def TSIOBufferCopy_def Let_def)
next
  assume a: "buffering f = IOBUF_BUFFER_FLUSHPART \<and> consistent f
      \<and> buffered f + length (take n rd) > buf_limit f
      \<and> (\<forall>e\<in>set (edits f). bytes_done f \<le> start e
             \<longrightarrow> start e + bytes e
                   \<le> bytes_done f + (buffered f + length (take n rd) - buf_limit f))"
  define chunk where "chunk = take n rd"
  define k where "k = buffered f + length chunk - buf_limit f"
  from a have mode: "buffering f = IOBUF_BUFFER_FLUSHPART" and c: "consistent f"
    and over: "buffered f + length chunk > buf_limit f"
    and inr: "\<forall>e\<in>set (edits f). bytes_done f \<le> start e
                \<longrightarrow> start e + bytes e \<le> bytes_done f + k"
    unfolding chunk_def k_def by blast+
  have lc: "min n (length rd) = length chunk" by (simp add: chunk_def min.commute)
  define f2 where "f2 = f\<lparr>reader := reader f @ chunk,
                           buffered := buffered f + length chunk\<rparr>"
  have c2: "consistent f2" using c by (simp add: f2_def consistent_def)
  have b2: "buffered f2 = buffered f + length chunk" "buf_limit f2 = buf_limit f"
    "bytes_done f2 = bytes_done f" "edits f2 = edits f" "reader f2 = reader f @ chunk"
    "buffering f2 = buffering f" "applied f2 = applied f" "output_buffer f2 = output_buffer f"
    by (simp_all add: f2_def)
  have eff: "effective_nbytes f2 (int (buffered f2) - int (buf_limit f2)) = int k"
    using over by (auto simp: effective_nbytes_def b2 k_def)
  have "int (start e + bytes e)
          \<le> int (bytes_done f2) + effective_nbytes f2 (int (buffered f2) - int (buf_limit f2))"
    if "e \<in> set (edits f2)" and "bytes_done f2 \<le> start e" for e
  proof -
    from that inr have "start e + bytes e \<le> bytes_done f + k" by (simp add: b2)
    then show ?thesis unfolding eff by (simp add: b2)
  qed
  then have h: "False \<or> (\<forall>e\<in>set (edits f2). bytes_done f2 \<le> start e \<longrightarrow>
       int (start e + bytes e)
          \<le> int (bytes_done f2) + effective_nbytes f2 (int (buffered f2) - int (buf_limit f2)))"
    by blast
  have m1: "0 \<le> effective_nbytes f2 (int (buffered f2) - int (buf_limit f2))"
    and m2: "effective_nbytes f2 (int (buffered f2) - int (buf_limit f2)) \<le> int (buffered f2)"
    unfolding eff by (simp_all add: b2 k_def)
  from flush_data_whole [OF c2 m1 m2 h] obtain rc f' where
    fl: "flush_data f2 (int (buffered f2) - int (buf_limit f2)) False = Some (rc, f')"
    and p: "reader f' = drop k (reader f2)" "buffered f' = buffered f2 - k"
      "bytes_done f' = bytes_done f2 + k" "consistent f'" "edits f' = []"
    unfolding eff by auto
  from flush_data_writes [OF fl c2 m2] obtain new where
    w: "applied f' = applied f2 @ new" "set new \<subseteq> set (edits f2)"
      "output_buffer f' = output_buffer f2
         @ replace_ranges (bytes_done f2) (take (bytes_done f' - bytes_done f2) (reader f2)) new"
      "chained (bytes_done f2) new"
    by blast
  have bd: "buffer_data_chunk f rd (int n)
            = flush_data f2 (int (buffered f2) - int (buf_limit f2)) False"
    using mode over
    by (simp add: buffer_data_chunk_def TSIOBufferCopy_def Let_def lc chunk_def [symmetric]
        f2_def [symmetric] b2)
  have r1: "bytes_done f' = bytes_done f + k" using p(3) by (simp add: b2)
  have r2: "reader f' = drop k (reader f @ chunk)" using p(1) by (simp add: b2)
  have r3: "buffered f' = buf_limit f" using p(2) over by (simp add: b2 k_def)
  have r4: "length (reader f') = buf_limit f" using p(4) r3 by (simp add: consistent_def)
  have r5: "applied f' = applied f @ new" "set new \<subseteq> set (edits f)"
    "chained (bytes_done f) new" "edits f' = []"
    using w(1,2,4) p(5) by (simp_all add: b2)
  have r6: "output_buffer f' = output_buffer f
              @ replace_ranges (bytes_done f) (take k (reader f @ chunk)) new"
    using w(3) by (simp add: b2 p(3))
  from fl r1 r2 r3 r4 r5 r6
  show "\<exists>rc f' new. buffer_data_chunk f rd (int n) = Some (rc, f')
           \<and> bytes_done f' = bytes_done f + (buffered f + length (take n rd) - buf_limit f)
           \<and> applied f' = applied f @ new \<and> set new \<subseteq> set (edits f)
           \<and> chained (bytes_done f) new \<and> edits f' = []
           \<and> output_buffer f'
              = output_buffer f
                  @ replace_ranges (bytes_done f)
                      (take (buffered f + length (take n rd) - buf_limit f)
                         (reader f @ take n rd)) new
           \<and> reader f' = drop (buffered f + length (take n rd) - buf_limit f)
                            (reader f @ take n rd)
           \<and> buffered f' = buf_limit f
           \<and> length (reader f') = buf_limit f"
    unfolding bd chunk_def [symmetric] k_def [symmetric] by blast
qed

theorem C6_flush_on_limit_witness:
  "(\<exists>rc f' new. buffer_data_chunk edited_all_ctx ''World'' 5 = Some (rc, f')
       \<and> bytes_done f' = 5 \<and> applied f' = new
       \<and> set new \<subseteq> {\<lparr>start = 3, bytes = 2, repl = ''p!''\<rparr>}
       \<and> output_buffer f' = replace_ranges 0 ''Hello'' new
       \<and> reader f' = ''World'' \<and> buffered f' = 5)
   \<and> (\<exists>rc f' new. buffer_data_chunk edited_part_ctx ''Hello'' 5 = Some (rc, f')
       \<and> bytes_done f' = 3 \<and> applied f' = new
       \<and> set new \<subseteq> {\<lparr>start = 1, bytes = 1, repl = ''x''\<rparr>}
       \<and> output_buffer f' = replace_ranges 0 ''Hel'' new
       \<and> reader f' = ''lo'' \<and> buffered f' = 2)
   \<and> map_option (output_buffer \<circ> snd) (buffer_data_chunk edited_all_ctx ''World'' 5)
       = Some ''Help!''
   \<and> map_option (output_buffer \<circ> snd) (buffer_data_chunk edited_part_ctx ''Hello'' 5)
       = Some ''Hxl''"
proof -
  have e: "map_option (output_buffer \<circ> snd) (buffer_data_chunk edited_all_ctx ''World'' 5)
       = Some ''Help!''"
    "map_option (output_buffer \<circ> snd) (buffer_data_chunk edited_part_ctx ''Hello'' 5)
       = Some ''Hxl''"
    by code_simp+
  from C6_flush_on_limit [of edited_all_ctx 5 "''World''"]
    C6_flush_on_limit [of edited_part_ctx 5 "''Hello''"] e
  show ?thesis
    by (auto simp: edited_all_ctx_def edited_part_ctx_def fresh_ctx_def consistent_def)
qed

text \<open>
  C6 as it is stated fails when a waiting edit ends beyond the bytes to be
  flushed: the flush stops in front of that edit.  With a limit of 2, four bytes
  stay in the input buffer; and two bytes of the old buffer are still there when
  the new chunk is copied in.
\<close>

theorem C6_counterexample:
  "buffer_data_chunk straddled_part_ctx ''Hello'' 5
     = Some (IB_EAGAIN,
         \<lparr>output_buffer = ''H'', output_vio_nbytes = None,
          buffering = IOBUF_BUFFER_FLUSHPART, reader = ''ello'', buf_limit = 2,
          buffered = 4, edits = [\<lparr>start = 1, bytes = 3, repl = ''x''\<rparr>],
          offs = 0, bytes_done = 1, applied = [], dropped = []\<rparr>)
   \<and> buffer_data_chunk straddled_all_ctx ''World'' 5
     = Some (IB_EAGAIN,
         \<lparr>output_buffer = ''Hel'', output_vio_nbytes = None,
          buffering = IOBUF_BUFFER_FLUSHALL, reader = ''loWorld'', buf_limit = 4,
          buffered = 7, edits = [\<lparr>start = 3, bytes = 4, repl = ''p!''\<rparr>],
          offs = 0, bytes_done = 3, applied = [], dropped = []\<rparr>)"
  by code_simp




section \<open>Properties of the rules module\<close>

subsection \<open>The operator string\<close>

lemma not_blank_at [simp]: "\<not> isblank CHR ''@''" "\<not> isblank CHR ''!''"
  by (simp_all add: isblank_def)

lemma find_at_prefix:
  assumes "prefix_ok bang pre"
  shows "find_at (pre @ CHR ''@'' # tail) bang = Inr (Some tail, bang \<or> CHR ''!'' \<in> set pre)"
  using assms
proof (induction pre arbitrary: bang)
  case Nil
  then show ?case by simp
next
  case (Cons c cs)
  show ?case
  proof (cases "c = CHR ''!''")
    case True
    with Cons.prems have nb: "\<not> bang" and ok: "prefix_ok True cs"
      by (auto simp: prefix_ok_def bang_budget_def split: if_splits)
    from Cons.IH [OF ok] True nb show ?thesis by simp
  next
    case False
    with Cons.prems have bl: "isblank c" and ok: "prefix_ok bang cs"
      by (auto simp: prefix_ok_def)
    have "c \<noteq> CHR ''@''" using bl by auto
    with Cons.IH [OF ok] False bl show ?thesis by simp
  qed
qed

lemma find_at_Some:
  assumes "find_at s bang = Inr (Some tail, b)"
  shows "\<exists>pre. s = pre @ CHR ''@'' # tail \<and> prefix_ok bang pre"
  using assms
proof (induction s arbitrary: bang)
  case Nil
  then show ?case by simp
next
  case (Cons c cs)
  show ?case
  proof (cases "\<not> bang \<and> c = CHR ''!''")
    case True
    with Cons.prems have "find_at cs True = Inr (Some tail, b)" by simp
    from Cons.IH [OF this] obtain pre where p: "cs = pre @ CHR ''@'' # tail" "prefix_ok True pre"
      by blast
    have "prefix_ok bang (c # pre)"
      using True p(2) by (simp add: prefix_ok_def bang_budget_def)
    with p(1) show ?thesis by (intro exI [of _ "c # pre"]) simp
  next
    case nb: False
    show ?thesis
    proof (cases "c = CHR ''@''")
      case True
      with nb Cons.prems have "tail = cs" by auto
      with True show ?thesis by (intro exI [of _ "[]"]) (simp add: prefix_ok_def)
    next
      case False
      with nb Cons.prems have bl: "isblank c" and r: "find_at cs bang = Inr (Some tail, b)"
        by (auto split: if_splits)
      from Cons.IH [OF r] obtain pre where p: "cs = pre @ CHR ''@'' # tail" "prefix_ok bang pre"
        by blast
      have "c \<noteq> CHR ''!''" using bl by auto
      then have "prefix_ok bang (c # pre)"
        using bl p(2) by (simp add: prefix_ok_def)
      with p(1) show ?thesis by (intro exI [of _ "c # pre"]) simp
    qed
  qed
qed

lemma find_at_Inl: "find_at s bang = Inl rc \<Longrightarrow> rc = IB_EINVAL"
  by (induction s arbitrary: bang) (auto split: if_splits)

lemma strchr_eq:
  "strchr s c = (if c \<in> set s then Some (dropWhile (\<lambda>x. x \<noteq> c) s) else None)"
  by (induction s) auto

lemma strip_trailing_eq:
  "strip_trailing (x # xs) = x # rev (dropWhile (\<lambda>c. c = CHR '' '') (rev xs))"
proof (induction xs rule: rev_induct)
  case Nil
  show ?case by (subst strip_trailing.simps) simp
next
  case (snoc y ys)
  show ?case
  proof (cases "y = CHR '' ''")
    case True
    have "strip_trailing (x # ys @ [y]) = strip_trailing (x # ys)"
      using True by (subst strip_trailing.simps) (simp add: butlast_append)
    with snoc True show ?thesis by simp
  next
    case False
    then show ?thesis by (subst strip_trailing.simps) simp
  qed
qed

lemma strip_trailing_Nil: "strip_trailing [] = []"
  by (subst strip_trailing.simps) simp

lemma not_space_hd_dropWhile:
  "dropWhile isspace s = x # xs \<Longrightarrow> x \<noteq> CHR '' ''"
proof
  assume d: "dropWhile isspace s = x # xs" and "x = CHR '' ''"
  then have "isspace x" by (simp add: isspace_def)
  moreover have "\<not> isspace (hd (dropWhile isspace s))"
    using d by (metis hd_dropWhile list.distinct(1))
  ultimately show False using d by simp
qed

lemma rstrip_spaces_Cons:
  "x \<noteq> CHR '' '' \<Longrightarrow> rstrip_spaces (x # xs) = x # rstrip_spaces xs"
  by (simp add: rstrip_spaces_def dropWhile_append)

lemma split_operator_eq:
  "split_operator tail = (operator_name tail, operator_args tail)"
proof (cases "CHR '' '' \<in> set tail")
  case False
  then have d: "dropWhile (\<lambda>c. c \<noteq> CHR '' '') tail = []"
    and t: "takeWhile (\<lambda>c. c \<noteq> CHR '' '') tail = tail"
    by auto
  from False show ?thesis
    by (simp add: split_operator_def strchr_eq operator_name_def operator_args_def
        rstrip_spaces_def d t)
next
  case True
  let ?sp = "dropWhile (\<lambda>c. c \<noteq> CHR '' '') tail"
  let ?args = "dropWhile isspace ?sp"
  have n: "take (length tail - length ?sp) tail = takeWhile (\<lambda>c. c \<noteq> CHR '' '') tail"
    by (metis add_diff_cancel_right' length_append takeWhile_dropWhile_id takeWhile_eq_take)
  have s: "(if 0 < length ?args then strip_trailing ?args else ?args) = rstrip_spaces ?args"
  proof (cases ?args)
    case Nil
    show ?thesis unfolding Nil by (simp add: rstrip_spaces_def)
  next
    case (Cons x xs)
    from not_space_hd_dropWhile [OF Cons] have "x \<noteq> CHR '' ''" .
    then show ?thesis unfolding Cons
      by (simp add: strip_trailing_eq rstrip_spaces_def dropWhile_append)
  qed
  show ?thesis
    apply (simp only: split_operator_def strchr_eq True if_True option.case Let_def)
    apply (simp only: n s)
    apply (simp add: operator_name_def operator_args_def Let_def)
    done
qed

subsection \<open>The inputs string\<close>

lemma strtok_tokens_delimiters:
  assumes "set s \<subseteq> set delim"
  shows "strtok_tokens delim [] s = []"
  using assms by (induction s) auto

text \<open>
  Every inputs string that starts with a delimiter and holds nothing but
  delimiters is accepted and adds no selector.
\<close>

lemma parse_inputs_delimiters_only:
  assumes "s \<noteq> []" and "set s \<subseteq> {CHR ''|'', CHR '',''}"
  shows "parse_inputs add rule s = (IB_OK, rule)"
proof -
  from assms obtain c cs where s: "s = c # cs" by (cases s) auto
  with assms(2) have "\<not> isspace c" by (auto simp: isspace_def)
  then have d: "dropWhile isspace s = s" by (simp add: s)
  have "strtok_tokens ''|,'' [] s = []"
    using assms(2) by (intro strtok_tokens_delimiters) auto
  with assms(1) show ?thesis by (simp add: parse_inputs_def d)
qed

section \<open>The claims about the rules module\<close>

text \<open>
  C7, as amended.  \<open>parse_operator\<close> takes the operator string apart exactly
  when it is blanks (space or tab) with at most one \<open>!\<close> anywhere among them,
  then \<open>@\<close> and a non-empty tail.  The \<open>!\<close> sets the invert flag; the operator
  name is the tail up to its first space; the arguments are what follows that
  space, without leading white space and trailing spaces, and are absent when
  that is empty.  The name, the arguments and the flag go to
  \<open>ib_operator_inst_create\<close>, whose instance is set on the rule.  Every other
  string, also one without \<open>@\<close> or with nothing after it, gives \<open>IB_EINVAL\<close> and
  leaves the rule as it was.
\<close>

theorem C7_parse_operator:
  "(operator_prefix_ok pre \<and> tail \<noteq> [] \<longrightarrow>
      parse_operator create rule (pre @ CHR ''@'' # tail) =
        (case create (operator_name tail) (operator_args tail) (CHR ''!'' \<in> set pre) of
           (rc, inst) \<Rightarrow> if rc \<noteq> IB_OK then (rc, rule) else (IB_OK, rule\<lparr>opinst := Some inst\<rparr>)))
   \<and> ((\<nexists>pre tail. str = pre @ CHR ''@'' # tail \<and> operator_prefix_ok pre \<and> tail \<noteq> []) \<longrightarrow>
      parse_operator create rule str = (IB_EINVAL, rule))"
proof (intro conjI impI)
  assume "operator_prefix_ok pre \<and> tail \<noteq> []"
  then have ok: "prefix_ok False pre" and ne: "tail \<noteq> []"
    by (simp_all add: operator_prefix_ok_def)
  show "parse_operator create rule (pre @ CHR ''@'' # tail) =
        (case create (operator_name tail) (operator_args tail) (CHR ''!'' \<in> set pre) of
           (rc, inst) \<Rightarrow> if rc \<noteq> IB_OK then (rc, rule) else (IB_OK, rule\<lparr>opinst := Some inst\<rparr>))"
    using ne
    by (simp add: parse_operator_def find_at_prefix [OF ok] split_operator_eq
        ib_rule_set_operator_def split: prod.splits)
next
  assume no: "\<nexists>pre tail. str = pre @ CHR ''@'' # tail \<and> operator_prefix_ok pre \<and> tail \<noteq> []"
  show "parse_operator create rule str = (IB_EINVAL, rule)"
  proof (cases "find_at str False")
    case (Inl rc)
    then show ?thesis by (simp add: parse_operator_def find_at_Inl)
  next
    case (Inr r)
    obtain at b where r: "r = (at, b)" by (cases r)
    show ?thesis
    proof (cases at)
      case None
      with Inr r show ?thesis by (simp add: parse_operator_def)
    next
      case (Some copy)
      from find_at_Some [of str False copy b] Inr r Some obtain pre where
        "str = pre @ CHR ''@'' # copy" "prefix_ok False pre" by auto
      with no have "copy = []" by (auto simp: operator_prefix_ok_def)
      with Inr r Some show ?thesis by (simp add: parse_operator_def)
    qed
  qed
qed


theorem C7_parse_operator_witness:
  "parse_operator any_operator new_rule ''  ! @rx  ^foo  ''
     = (IB_OK, new_rule\<lparr>opinst :=
          Some \<lparr>op_name = ''rx'', op_params = Some ''^foo'', op_invert = True\<rparr>\<rparr>)
   \<and> parse_operator any_operator new_rule ''rx'' = (IB_EINVAL, new_rule)"
proof -
  have ok: "operator_prefix_ok ''  ! '' \<and> ''rx  ^foo  '' \<noteq> []"
    by (simp add: operator_prefix_ok_def prefix_ok_def bang_budget_def isblank_def)
  have no: "\<nexists>pre tail. ''rx'' = pre @ CHR ''@'' # tail \<and> operator_prefix_ok pre \<and> tail \<noteq> []"
  proof
    assume "\<exists>pre tail. ''rx'' = pre @ CHR ''@'' # tail \<and> operator_prefix_ok pre \<and> tail \<noteq> []"
    then obtain pre tail where "''rx'' = pre @ CHR ''@'' # tail" by blast
    then have "CHR ''@'' \<in> set ''rx''" by (metis in_set_conv_decomp)
    then show False by simp
  qed
  have n: "operator_name ''rx  ^foo  '' = ''rx''"
    and a: "operator_args ''rx  ^foo  '' = Some ''^foo''"
    by (simp_all add: operator_name_def operator_args_def rstrip_spaces_def isspace_def)
  from C7_parse_operator [of "''  ! ''" "''rx  ^foo  ''" any_operator new_rule "''rx''"] ok no n a
  show ?thesis by (simp add: any_operator_def)
qed

text \<open>
  C7 as it is stated fails in both directions: a newline is white space, yet a
  string that starts with one is rejected; and a blank between \<open>!\<close> and \<open>@\<close> is
  accepted.
\<close>

theorem C7_counterexample:
  "claimed_operator_form [CHR 0x0A, CHR ''@'', CHR ''r'', CHR ''x'']
   \<and> fst (parse_operator any_operator new_rule [CHR 0x0A, CHR ''@'', CHR ''r'', CHR ''x''])
       = IB_EINVAL
   \<and> \<not> claimed_operator_form ''! @rx''
   \<and> fst (parse_operator any_operator new_rule ''! @rx'') = IB_OK"
  by (simp add: claimed_operator_form_def parse_operator_def split_operator_def
      any_operator_def isspace_def isblank_def new_rule_def ib_rule_set_operator_def)

text \<open>
  C8, as amended.  When the lock cannot be taken before the Lua thread is
  created, \<open>lua_operator_execute\<close> logs the failure and returns the status of the
  lock; the script is not called and \<open>*result\<close> is left as the caller passed it.
  When the lock cannot be taken for joining the thread, after the script has run,
  the status of the lock is returned and \<open>*result\<close> is what the script returned.
\<close>

theorem C8_gate_failure:
  "(lock_new w \<noteq> IB_OK \<longrightarrow>
      lua_operator_execute w result
        = (lock_new w, result, [LogError ''Failed to lock Lua context.'']))
   \<and> (lock_new w = IB_OK \<and> new_thread w = IB_OK \<and> unlock_new w = IB_OK
        \<and> eval_status w = IB_OK \<and> lock_join w \<noteq> IB_OK \<longrightarrow>
      lua_operator_execute w result
        = (lock_join w, eval_result w,
           [Locked, CriticalCall, Unlocked, ScriptCall,
            LogError ''Failed to lock Lua context.'']))"
  by (simp add: lua_operator_execute_def ib_lua_func_eval_r_def call_in_critical_section_def)

theorem C8_gate_failure_witness:
  "lock_new gate_busy \<noteq> IB_OK
   \<and> lua_operator_execute gate_busy 0
       = (IB_EUNKNOWN, 0, [LogError ''Failed to lock Lua context.''])
   \<and> lock_join gate_busy_at_join \<noteq> IB_OK
   \<and> lua_operator_execute gate_busy_at_join 0
       = (IB_EUNKNOWN, 1, [Locked, CriticalCall, Unlocked, ScriptCall,
            LogError ''Failed to lock Lua context.''])"
  using C8_gate_failure [of gate_busy 0] C8_gate_failure [of gate_busy_at_join 0]
  by (simp add: gate_busy_def gate_busy_at_join_def)

text \<open>
  C8 as it is stated (the result is 0 when the gate cannot be taken) fails: the
  result is the caller's value, here 1, in the first case and the script's value,
  here 1, in the second.
\<close>

theorem C8_counterexample:
  "lock_new gate_busy \<noteq> IB_OK
   \<and> lua_operator_execute gate_busy 1
       = (IB_EUNKNOWN, 1, [LogError ''Failed to lock Lua context.''])
   \<and> lock_join gate_busy_at_join \<noteq> IB_OK
   \<and> fst (lua_operator_execute gate_busy_at_join 0) = IB_EUNKNOWN
   \<and> fst (snd (lua_operator_execute gate_busy_at_join 0)) = 1"
  by (simp add: gate_busy_def gate_busy_at_join_def lua_operator_execute_def ib_lua_func_eval_r_def
      call_in_critical_section_def)

text \<open>
  C9.  An inputs string that holds delimiters only is not empty, so
  \<open>parse_inputs\<close> does not reject it; \<open>strtok\<close> finds no token in it, and the
  function returns \<open>IB_OK\<close> with no selector added to the rule.
\<close>

theorem C9_delimiters_only:
  "parse_inputs ib_rule_add_input new_rule ''|'' = (IB_OK, new_rule)
   \<and> input_fields (snd (parse_inputs ib_rule_add_input new_rule ''|,|'')) = []
   \<and> fst (parse_inputs ib_rule_add_input new_rule ''|,|'') = IB_OK"
  by (simp add: parse_inputs_def isspace_def new_rule_def)

end
